theory Spec2Isabelle
  imports Main
begin

section \<open>Score tiers (lib/constants.ts, types/ethos.ts)\<close>

text \<open>
  A score is a JavaScript number or \<open>null\<close>. The reputation service reports integer
  scores, so a score is modelled as \<open>int option\<close> with \<open>None\<close> for \<open>null\<close>.
  The upper bound of the last tier is \<open>Infinity\<close> in the source; \<open>tmax = None\<close>
  stands for it.
\<close>

record ScoreTier =
  name :: string
  tmin :: int
  tmax :: "int option"
  color :: string
  label :: string

definition SCORE_TIERS :: "ScoreTier list" where
  "SCORE_TIERS =
    [\<lparr>name = ''untrusted'', tmin = 0, tmax = Some 799, color = ''#F2B8B5'', label = ''UNTRUSTED''\<rparr>,
     \<lparr>name = ''questionable'', tmin = 800, tmax = Some 999, color = ''#FFB4AB'', label = ''QUESTIONABLE''\<rparr>,
     \<lparr>name = ''neutral'', tmin = 1000, tmax = Some 1199, color = ''#938F99'', label = ''NEUTRAL''\<rparr>,
     \<lparr>name = ''known'', tmin = 1200, tmax = Some 1399, color = ''#CCC2DC'', label = ''KNOWN''\<rparr>,
     \<lparr>name = ''established'', tmin = 1400, tmax = Some 1599, color = ''#D0BCFF'', label = ''ESTABLISHED''\<rparr>,
     \<lparr>name = ''reputable'', tmin = 1600, tmax = Some 1799, color = ''#B8C4FF'', label = ''REPUTABLE''\<rparr>,
     \<lparr>name = ''exemplary'', tmin = 1800, tmax = Some 1999, color = ''#7DD3FC'', label = ''EXEMPLARY''\<rparr>,
     \<lparr>name = ''distinguished'', tmin = 2000, tmax = Some 2199, color = ''#4ADE80'', label = ''DISTINGUISHED''\<rparr>,
     \<lparr>name = ''revered'', tmin = 2200, tmax = Some 2399, color = ''#C084FC'', label = ''REVERED''\<rparr>,
     \<lparr>name = ''renowned'', tmin = 2400, tmax = None, color = ''#A78BFA'', label = ''RENOWNED''\<rparr>]"

definition UNSCORED_COLOR :: string where
  "UNSCORED_COLOR = ''#71717A''"

text \<open>\<open>score >= t.min && score <= t.max\<close>, the predicate of the \<open>find\<close>.\<close>

definition inTier :: "int \<Rightarrow> ScoreTier \<Rightarrow> bool" where
  "inTier score t =
     (tmin t \<le> score \<and> (case tmax t of None \<Rightarrow> True | Some m \<Rightarrow> score \<le> m))"

text \<open>
  \<open>getTierForScore\<close>: \<open>null\<close> for a \<open>null\<close> score, otherwise the first tier of the
  table whose range holds the score, or \<open>SCORE_TIERS[0]\<close> when \<open>find\<close> finds none.
\<close>

definition getTierForScore :: "int option \<Rightarrow> ScoreTier option" where
  "getTierForScore score =
     (case score of
        None \<Rightarrow> None
      | Some s \<Rightarrow>
          (case find (inTier s) SCORE_TIERS of
             Some t \<Rightarrow> Some t
           | None \<Rightarrow> Some (SCORE_TIERS ! 0)))"

definition getScoreColor :: "int option \<Rightarrow> string" where
  "getScoreColor score =
     (case getTierForScore score of Some t \<Rightarrow> color t | None \<Rightarrow> UNSCORED_COLOR)"

definition getScoreLabel :: "int option \<Rightarrow> string" where
  "getScoreLabel score =
     (case getTierForScore score of Some t \<Rightarrow> label t | None \<Rightarrow> ''UNSCORED'')"

text \<open>
  The tier name the content script stores in a record:
  \<open>tier ? tier.name : 'unscored'\<close> (\<open>updateScore\<close>) and
  \<open>getTierForScore(score)?.name || 'unscored'\<close> (the fallback path). Every name of
  the table is a non-empty string, so both expressions agree.
\<close>

definition tierNameOf :: "int option \<Rightarrow> string" where
  "tierNameOf score =
     (case getTierForScore score of Some t \<Rightarrow> name t | None \<Rightarrow> ''unscored'')"

text \<open>\<open>getScoreTier\<close> of types/ethos.ts: the same table as a chain of comparisons.\<close>

definition getScoreTier :: "int option \<Rightarrow> string" where
  "getScoreTier score =
     (case score of
        None \<Rightarrow> ''unscored''
      | Some s \<Rightarrow>
          if s \<ge> 2400 then ''renowned''
          else if s \<ge> 2200 then ''revered''
          else if s \<ge> 2000 then ''distinguished''
          else if s \<ge> 1800 then ''exemplary''
          else if s \<ge> 1600 then ''reputable''
          else if s \<ge> 1400 then ''established''
          else if s \<ge> 1200 then ''known''
          else if s \<ge> 1000 then ''neutral''
          else if s \<ge> 800 then ''questionable''
          else ''untrusted'')"

section \<open>HTML escaping (content script)\<close>

text \<open>
  \<open>text.replace(/c/g, r)\<close> for a one-character pattern replaces every occurrence of
  the character, left to right.
\<close>

definition replaceAll :: "char \<Rightarrow> string \<Rightarrow> string \<Rightarrow> string" where
  "replaceAll c r text = concat (map (\<lambda>x. if x = c then r else [x]) text)"

definition escapeHtml :: "string \<Rightarrow> string" where
  "escapeHtml text =
     replaceAll (CHR 0x27) ''&#039;''
       (replaceAll (CHR 0x22) ''&quot;''
         (replaceAll CHR ''>'' ''&gt;''
           (replaceAll CHR ''<'' ''&lt;''
             (replaceAll CHR ''&'' ''&amp;'' text))))"

text \<open>
  What escaping is meant to do, character by character: \<open>&\<close>, \<open><\<close>, \<open>>\<close>, the double
  quote and the single quote each give their entity, any other character gives itself.
\<close>

definition entityOf :: "char \<Rightarrow> string" where
  "entityOf c =
     (if c = CHR ''&'' then ''&amp;''
      else if c = CHR ''<'' then ''&lt;''
      else if c = CHR ''>'' then ''&gt;''
      else if c = CHR 0x22 then ''&quot;''
      else if c = CHR 0x27 then ''&#039;''
      else [c])"

section \<open>The reputation cache (lib/ethos-client.ts)\<close>

text \<open>
  \<open>cache\<close> is a JavaScript \<open>Map\<close> from request keys to entries. A \<open>Map\<close> iterates in
  insertion order and \<open>setCache\<close> sorts \<open>Array.from(cache.entries())\<close>, so the cache is an
  association list in insertion order. Its keys are distinct: \<open>set\<close> on a key that is
  present replaces the value in place, \<open>delete\<close> removes the entry.
  Times are milliseconds (\<open>Date.now()\<close>), passed in by the caller of the model.
\<close>

record 'a CacheEntry =
  data :: 'a
  expiresAt :: int

type_synonym 'a cache = "(string \<times> 'a CacheEntry) list"

definition TTL_score :: int where
  "TTL_score = 300000"

definition TTL_user :: int where
  "TTL_user = 600000"

definition cacheGet :: "'a cache \<Rightarrow> string \<Rightarrow> 'a CacheEntry option" where
  "cacheGet c k = map_of c k"

definition cacheDelete :: "'a cache \<Rightarrow> string \<Rightarrow> 'a cache" where
  "cacheDelete c k = filter (\<lambda>(k', v). k' \<noteq> k) c"

definition cacheSet :: "'a cache \<Rightarrow> string \<Rightarrow> 'a CacheEntry \<Rightarrow> 'a cache" where
  "cacheSet c k e =
     (if k \<in> fst ` set c then map (\<lambda>(k', v). if k' = k then (k', e) else (k', v)) c
      else c @ [(k, e)])"

text \<open>\<open>getFromCache\<close>: the value, or \<open>null\<close>; an expired entry is deleted on the way.\<close>

definition getFromCache :: "'a cache \<Rightarrow> string \<Rightarrow> int \<Rightarrow> 'a option \<times> 'a cache" where
  "getFromCache c key now =
     (case cacheGet c key of
        None \<Rightarrow> (None, c)
      | Some entry \<Rightarrow>
          if now > expiresAt entry then (None, cacheDelete c key)
          else (Some (data entry), c))"

text \<open>
  The first loop of \<open>setCache\<close>:
  \<open>for (const [k, v] of cache.entries()) if (now > v.expiresAt) cache.delete(k)\<close>.
  Deleting during the iteration of a \<open>Map\<close> only removes entries, so the loop visits the
  entries the cache held when it started.
\<close>

definition purgeExpired :: "'a cache \<Rightarrow> int \<Rightarrow> 'a cache" where
  "purgeExpired c now =
     fold (\<lambda>(k, v) m. if now > expiresAt v then cacheDelete m k else m) c c"

text \<open>
  The second step: the entries sorted by \<open>expiresAt\<close> ascending
  (\<open>Array.prototype.sort\<close> is stable, as \<open>sort_key\<close> is), and the first
  \<open>cache.size - 500\<close> of them deleted.
\<close>

definition evictOldest :: "'a cache \<Rightarrow> 'a cache" where
  "evictOldest c =
     (let sorted = sort_key (\<lambda>(k, v). expiresAt v) c
      in fold (\<lambda>(k, v) m. cacheDelete m k) (take (length c - 500) sorted) c)"

text \<open>The block \<open>if (cache.size > 500) { ... }\<close> of \<open>setCache\<close>, before the insertion.\<close>

definition trimCache :: "'a cache \<Rightarrow> int \<Rightarrow> 'a cache" where
  "trimCache c now =
     (if length c > 500 then
        (let c2 = purgeExpired c now
         in if length c2 > 500 then evictOldest c2 else c2)
      else c)"

text \<open>
  \<open>setCache(key, data, ttl)\<close>. \<open>now\<close> is the clock read by the cleanup, \<open>now'\<close> the
  clock read again by \<open>cache.set(key, {data, expiresAt: Date.now() + ttl})\<close>.
\<close>

definition setCache :: "'a cache \<Rightarrow> string \<Rightarrow> 'a \<Rightarrow> int \<Rightarrow> int \<Rightarrow> int \<Rightarrow> 'a cache" where
  "setCache c key d ttl now now' =
     cacheSet (trimCache c now) key \<lparr>data = d, expiresAt = now' + ttl\<rparr>"

text \<open>A cache of \<open>n\<close> entries with distinct keys, entry \<open>i\<close> expiring at time \<open>i + 1\<close>.\<close>

definition demoCache :: "nat \<Rightarrow> unit cache" where
  "demoCache n =
     map (\<lambda>i. (replicate (Suc i) CHR ''k'', \<lparr>data = (), expiresAt = int i + 1\<rparr>)) [0..<n]"

text \<open>Whether every entry, or no entry, of a cache is expired at a time (\<open>now > v.expiresAt\<close>).\<close>

definition allExpired :: "'a cache \<Rightarrow> int \<Rightarrow> bool" where
  "allExpired c now = list_all (\<lambda>(k, v). now > expiresAt v) c"

definition noneExpired :: "'a cache \<Rightarrow> int \<Rightarrow> bool" where
  "noneExpired c now = list_all (\<lambda>(k, v). \<not> now > expiresAt v) c"

section \<open>The identifier matcher (content script, \<open>PATTERNS\<close> and \<open>processTextNode\<close>)\<close>

subsection \<open>Characters\<close>

text \<open>
  A JavaScript string is a sequence of UTF-16 code units; the model uses \<open>char\<close>. The
  patterns only name ASCII characters, and every other code unit is outside all classes
  below, as it is outside \<open>[a-zA-Z0-9-]\<close> and \<open>\w\<close>.
\<close>

definition isDigit :: "char \<Rightarrow> bool" where
  "isDigit c = (c \<in> set ''0123456789'')"

definition isUpper :: "char \<Rightarrow> bool" where
  "isUpper c = (c \<in> set ''ABCDEFGHIJKLMNOPQRSTUVWXYZ'')"

definition isLower :: "char \<Rightarrow> bool" where
  "isLower c = (c \<in> set ''abcdefghijklmnopqrstuvwxyz'')"

text \<open>\<open>[a-fA-F0-9]\<close>\<close>

definition isHexChar :: "char \<Rightarrow> bool" where
  "isHexChar c = (c \<in> set ''abcdefABCDEF0123456789'')"

text \<open>\<open>[a-zA-Z0-9]\<close>, \<open>[a-zA-Z0-9-]\<close> and \<open>\w\<close>\<close>

definition isAlnum :: "char \<Rightarrow> bool" where
  "isAlnum c = (isLower c \<or> isUpper c \<or> isDigit c)"

definition isNameChar :: "char \<Rightarrow> bool" where
  "isNameChar c = (isAlnum c \<or> c = CHR ''-'')"

definition isWordChar :: "char \<Rightarrow> bool" where
  "isWordChar c = (isAlnum c \<or> c = CHR ''_'')"

text \<open>
  White space as \<open>String.prototype.trim\<close> strips it, within ASCII: space, tab, line
  feed, vertical tab, form feed and carriage return.
\<close>

definition isSpace :: "char \<Rightarrow> bool" where
  "isSpace c = (c \<in> set [CHR 0x20, CHR 0x09, CHR 0x0A, CHR 0x0B, CHR 0x0C, CHR 0x0D])"

text \<open>\<open>toLowerCase\<close>, within ASCII: an upper-case letter gives its lower-case letter.\<close>

definition toLowerChar :: "char \<Rightarrow> char" where
  "toLowerChar c =
     (case map_of (zip ''ABCDEFGHIJKLMNOPQRSTUVWXYZ'' ''abcdefghijklmnopqrstuvwxyz'') c of
        Some l \<Rightarrow> l
      | None \<Rightarrow> c)"

definition toLowerCase :: "string \<Rightarrow> string" where
  "toLowerCase s = map toLowerChar s"

text \<open>\<open>!text.trim()\<close>: the text is empty or white space only.\<close>

definition isBlank :: "string \<Rightarrow> bool" where
  "isBlank s = list_all isSpace s"

definition endsWith :: "string \<Rightarrow> string \<Rightarrow> bool" where
  "endsWith s suffix =
     (length suffix \<le> length s \<and> drop (length s - length suffix) s = suffix)"

subsection \<open>The three patterns\<close>

text \<open>
  Whether a pattern matches at a position depends on the text from that position on and,
  for \<open>\b\<close>, on the character before it. So a pattern is a function from the character
  before the position (\<open>None\<close> at the start of the text) and the rest of the text to the
  length of the match that starts there, if there is one.

  \<open>\b\<close> holds when exactly one of the characters before and at the position is a word
  character; the outside of the text counts as a non-word character.
\<close>

type_synonym pattern = "char option \<Rightarrow> string \<Rightarrow> nat option"

definition wordBoundary :: "char option \<Rightarrow> string \<Rightarrow> bool" where
  "wordBoundary prev rest =
     ((case prev of None \<Rightarrow> False | Some c \<Rightarrow> isWordChar c)
      \<noteq> (case rest of [] \<Rightarrow> False | c # cs \<Rightarrow> isWordChar c))"

text \<open>\<open>ethAddress: /0x[a-fA-F0-9]{40}/g\<close>\<close>

definition ethAddressAt :: pattern where
  "ethAddressAt prev rest =
     (if take 2 rest = ''0x'' \<and> length (take 40 (drop 2 rest)) = 40
         \<and> list_all isHexChar (take 40 (drop 2 rest))
      then Some 42 else None)"

text \<open>
  The tail of a name pattern: the literal suffix, compared without regard to case (flag
  \<open>i\<close>), then \<open>\b\<close> between the last character of the suffix and what follows.
\<close>

definition suffixAt :: "string \<Rightarrow> string \<Rightarrow> bool" where
  "suffixAt suffix rest =
     (toLowerCase (take (length suffix) rest) = suffix
      \<and> wordBoundary (Some (last (take (length suffix) rest))) (drop (length suffix) rest))"

text \<open>
  \<open>\b[a-zA-Z0-9][a-zA-Z0-9-]{n,}<suffix>\b\<close>. The quantifier is greedy: the longest run
  of name characters is tried first, then each shorter run down to \<open>n\<close> characters, and
  the first run after which the tail matches gives the match.
\<close>

definition nameAt :: "nat \<Rightarrow> string \<Rightarrow> pattern" where
  "nameAt n suffix prev rest =
     (case rest of
        [] \<Rightarrow> None
      | c # r \<Rightarrow>
          if wordBoundary prev rest \<and> isAlnum c then
            (let longest = length (takeWhile isNameChar r)
             in case find (\<lambda>k. suffixAt suffix (drop k r)) (rev [n..<Suc longest]) of
                  Some k \<Rightarrow> Some (Suc k + length suffix)
                | None \<Rightarrow> None)
          else None)"

text \<open>\<open>baseName: /\b[a-zA-Z0-9][a-zA-Z0-9-]{0,}\.base\.eth\b/gi\<close>\<close>

definition baseNameAt :: pattern where
  "baseNameAt = nameAt 0 ''.base.eth''"

text \<open>\<open>ensName: /\b[a-zA-Z0-9][a-zA-Z0-9-]{2,}\.eth\b/gi\<close>\<close>

definition ensNameAt :: pattern where
  "ensNameAt = nameAt 2 ''.eth''"

text \<open>
  \<open>while ((match = regex.exec(text)) !== null)\<close> with a global regular expression: the
  leftmost match at or after \<open>lastIndex\<close>, then the search goes on behind it.
  \<open>findAll m prev rest i\<close> searches \<open>rest\<close>, the text from index \<open>i\<close> on, and lists the
  matches as (index, length). No pattern of the script matches the empty string; the
  branch for an empty match only makes the recursion well-founded.
\<close>

function findAll :: "pattern \<Rightarrow> char option \<Rightarrow> string \<Rightarrow> nat \<Rightarrow> (nat \<times> nat) list" where
  "findAll m prev [] i = []"
| "findAll m prev (c # cs) i =
     (case m prev (c # cs) of
        None \<Rightarrow> findAll m (Some c) cs (Suc i)
      | Some len \<Rightarrow>
          if len = 0 then []
          else (i, len) # findAll m (Some (last (take len (c # cs)))) (drop len (c # cs)) (i + len))"
  by pat_completeness auto
termination
  by (relation "measure (\<lambda>(m, prev, rest, i). length rest)") auto

subsection \<open>Collecting the matches of a text run\<close>

datatype idtype = Eth | Ens | Base

record Match =
  mtext :: string
  index :: nat
  mtype :: idtype

definition matchesOf :: "pattern \<Rightarrow> idtype \<Rightarrow> string \<Rightarrow> Match list" where
  "matchesOf m ty text =
     map (\<lambda>(i, len). \<lparr>mtext = take len (drop i text), index = i, mtype = ty\<rparr>)
       (findAll m None text 0)"

text \<open>
  The overlap test of the ENS loop, for a candidate at \<open>ci\<close> with text \<open>ctext\<close> against an
  accepted match \<open>m\<close>.
\<close>

definition overlaps :: "nat \<Rightarrow> string \<Rightarrow> Match \<Rightarrow> bool" where
  "overlaps ci ctext m =
     ((index m \<le> ci \<and> ci < index m + length (mtext m))
      \<or> (ci \<le> index m \<and> index m < ci + length ctext))"

text \<open>
  The ENS loop over the candidates of the ENS pattern: a candidate that ends with
  \<open>.base.eth\<close> is skipped, a candidate that overlaps an accepted match is dropped, any
  other is pushed.
\<close>

fun collectEns :: "string \<Rightarrow> (nat \<times> nat) list \<Rightarrow> Match list \<Rightarrow> Match list" where
  "collectEns text [] matches = matches"
| "collectEns text ((i, len) # rest) matches =
     (let m0 = take len (drop i text)
      in if endsWith m0 ''.base.eth'' then collectEns text rest matches
         else if list_ex (overlaps i m0) matches then collectEns text rest matches
         else collectEns text rest (matches @ [\<lparr>mtext = m0, index = i, mtype = Ens\<rparr>]))"

text \<open>
  The match-collection phase of \<open>processTextNode\<close>: addresses, then Basenames (both
  pushed without a test), then ENS names.
\<close>

definition collectMatches :: "string \<Rightarrow> Match list" where
  "collectMatches text =
     collectEns text (findAll ensNameAt None text 0)
       (matchesOf ethAddressAt Eth text @ matchesOf baseNameAt Base text)"

text \<open>Whether the spans of two matches share a position of the text.\<close>

definition spansOverlap :: "Match \<Rightarrow> Match \<Rightarrow> bool" where
  "spansOverlap a b =
     (index a < index b + length (mtext b) \<and> index b < index a + length (mtext a))"

section \<open>The state of the content script\<close>

subsection \<open>Records, the document and the collaborators\<close>

text \<open>
  \<open>IdentifierInfo\<close>, one per lower-cased identifier. The field \<open>identifier\<close> is \<open>identifierStr\<close> here. Optional fields are \<open>None\<close> when
  \<open>undefined\<close>; \<open>fetched\<close> is \<open>False\<close> while it is \<open>undefined\<close>.
\<close>

record IdentifierInfo =
  identifierStr :: string
  itype :: idtype
  score :: "int option"
  tier :: string
  resolvedAddress :: "string option"
  ethosName :: "string option"
  avatarUrl :: "string option"
  fetched :: bool

text \<open>
  DOM nodes. Every node object has an identity, a natural number. A text node carries its
  text; an element carries its lower-cased tag name, whether it is content-editable, and
  its children. The one attribute the script assigns, \<open>className\<close>, lives in a store of
  the state, keyed by the element's identity.
\<close>

datatype dnode =
  TextNode nat string
  | Element nat string bool "dnode list"

fun nodeId :: "dnode \<Rightarrow> nat" where
  "nodeId (TextNode i t) = i"
| "nodeId (Element i tag ce kids) = i"

text \<open>What the tooltip element of the overlay shows.\<close>

record ProfileTooltip =
  ptElement :: nat
  ptScore :: "int option"
  ptTierLabel :: string
  ptName :: string
  ptSubtitle :: "string option"
  ptId :: string

datatype tooltipContent =
  Blank
  | LoadingView string
  | ProfileView ProfileTooltip

text \<open>
  The collaborators: the resolver (\<open>resolveName\<close>, which catches its own failures and
  returns \<open>null\<close>) and the two scorer calls, each of which returns a response, returns
  \<open>null\<close>, or throws. A \<open>score\<close> field of a user response can be absent (\<open>None\<close>),
  \<open>null\<close> (\<open>Some None\<close>) or a number.
\<close>

datatype exn = Exception

datatype 'a outcome = Throws | Returns 'a

record ScoreResponse =
  respScore :: "int option"

record UserResponse =
  urDisplayName :: "string option"
  urUsername :: "string option"
  urAvatarUrl :: "string option"
  urScore :: "int option option"

record Env =
  resolveName :: "string \<Rightarrow> string option"
  getScoreByAddress :: "string \<Rightarrow> ScoreResponse option outcome"
  getUserByAddress :: "string \<Rightarrow> UserResponse option outcome"

datatype call = ResolveCall string | ScoreCall string | UserCall string

text \<open>
  The module-level variables of the content script, the document, and two traces:
  \<open>calls\<close> lists the collaborator calls in the order they were made, \<open>dispatched\<close> the
  batches taken by \<open>scoreQueue.splice(0, 30)\<close>. A timer variable is \<open>True\<close> while a
  timeout set by the script is pending. \<open>targetElements\<close> is a \<open>Map\<close> whose insertion
  order the script reads, so it is an association list in insertion order.
\<close>

record State =
  body :: dnode
  detached :: "dnode list"
  className :: "nat \<Rightarrow> string"
  nextId :: nat
  processedNodes :: "nat set"
  identifierData :: "string \<Rightarrow> IdentifierInfo option"
  targetElements :: "(string \<times> nat list) list"
  scoreQueue :: "(string \<times> idtype) list"
  scoreTimeout :: bool
  pendingNodes :: "nat list"
  observerTimeout :: bool
  currentHover :: "(nat \<times> string) option"
  isTargetHovered :: bool
  hideTimeout :: bool
  overlayRoot :: bool
  tooltip :: tooltipContent
  tooltipVisible :: bool
  calls :: "call list"
  dispatched :: "(string \<times> idtype) list list"

subsection \<open>Tooltips\<close>

text \<open>A string is truthy when it is neither \<open>undefined\<close> nor empty.\<close>

definition truthy :: "string option \<Rightarrow> bool" where
  "truthy x = (case x of None \<Rightarrow> False | Some t \<Rightarrow> t \<noteq> [])"

text \<open>
  \<open>id.length > 20 ? id.slice(0, 10) + '...' + id.slice(-n) : id\<close>, with \<open>n = 8\<close> in
  \<open>showTooltip\<close> and \<open>n = 6\<close> in \<open>showLoadingTooltip\<close>.
\<close>

definition shorten :: "nat \<Rightarrow> string \<Rightarrow> string" where
  "shorten n ident =
     (if length ident > 20 then take 10 ident @ ''...'' @ drop (length ident - n) ident
      else ident)"

text \<open>
  \<open>showTooltip(element, data)\<close>: nothing without the overlay; otherwise the tooltip's
  \<open>innerHTML\<close> is rebuilt from the record as it is at the call. The model keeps the parts
  of the markup that depend on the record: the score, the tier label looked up by
  \<open>data.tier\<close>, the escaped title, subtitle and identifier.
\<close>

definition tierLabelOf :: "string \<Rightarrow> string" where
  "tierLabelOf t =
     (case find (\<lambda>r. name r = t) SCORE_TIERS of Some r \<Rightarrow> label r | None \<Rightarrow> ''UNSCORED'')"

definition renderProfile :: "nat \<Rightarrow> IdentifierInfo \<Rightarrow> ProfileTooltip" where
  "renderProfile element d =
     \<lparr>ptElement = element,
      ptScore = score d,
      ptTierLabel = tierLabelOf (tier d),
      ptName = escapeHtml (if truthy (ethosName d) then the (ethosName d)
                           else shorten 8 (identifierStr d)),
      ptSubtitle = (if truthy (ethosName d) then Some (escapeHtml (shorten 8 (identifierStr d)))
                    else None),
      ptId = escapeHtml (identifierStr d)\<rparr>"

text \<open>A string that holds none of \<open><\<close>, \<open>>\<close>, the double quote and the single quote.\<close>

definition markupFree :: "string \<Rightarrow> bool" where
  "markupFree t =
     (CHR ''<'' \<notin> set t \<and> CHR ''>'' \<notin> set t \<and> CHR 0x22 \<notin> set t \<and> CHR 0x27 \<notin> set t)"

definition showTooltip :: "State \<Rightarrow> nat \<Rightarrow> IdentifierInfo \<Rightarrow> State" where
  "showTooltip s element d =
     (if \<not> overlayRoot s then s
      else s\<lparr>tooltip := ProfileView (renderProfile element d), tooltipVisible := True\<rparr>)"

definition showLoadingTooltip :: "State \<Rightarrow> nat \<Rightarrow> string \<Rightarrow> State" where
  "showLoadingTooltip s element ident =
     (if \<not> overlayRoot s then s
      else s\<lparr>tooltip := LoadingView (shorten 6 ident), tooltipVisible := True\<rparr>)"

subsection \<open>The marker registry\<close>

definition regGet :: "(string \<times> nat list) list \<Rightarrow> string \<Rightarrow> nat list" where
  "regGet r k = (case map_of r k of Some els \<Rightarrow> els | None \<Rightarrow> [])"

text \<open>
  \<open>if (!targetElements.has(id)) targetElements.set(id, []);
  targetElements.get(id).push(span)\<close>
\<close>

definition regPush :: "(string \<times> nat list) list \<Rightarrow> string \<Rightarrow> nat \<Rightarrow> (string \<times> nat list) list" where
  "regPush r k el =
     (if k \<in> fst ` set r then map (\<lambda>(k', els). if k' = k then (k', els @ [el]) else (k', els)) r
      else r @ [(k, [el])])"

definition regSet :: "(string \<times> nat list) list \<Rightarrow> string \<Rightarrow> nat list \<Rightarrow> (string \<times> nat list) list" where
  "regSet r k els =
     (if k \<in> fst ` set r then map (\<lambda>(k', old). if k' = k then (k', els) else (k', old)) r
      else r @ [(k, els)])"

definition regDelete :: "(string \<times> nat list) list \<Rightarrow> string \<Rightarrow> (string \<times> nat list) list" where
  "regDelete r k = filter (\<lambda>(k', els). k' \<noteq> k) r"

text \<open>\<open>for (const el of elements) el.className = `aura-target ${tierName}`\<close>\<close>

definition setTierClass :: "(nat \<Rightarrow> string) \<Rightarrow> nat list \<Rightarrow> string \<Rightarrow> (nat \<Rightarrow> string)" where
  "setTierClass cls els tierName = fold (\<lambda>el f. f(el := ''aura-target '' @ tierName)) els cls"

subsection \<open>The scoring batcher\<close>

text \<open>
  \<open>updateScore(key, score)\<close>: the record, if there is one, gets the score, the tier name
  and \<open>fetched = true\<close>; every registered element gets the tier's class; the tooltip is
  rendered again when the hovered identifier is this one and the record exists.
\<close>

definition updateScore :: "State \<Rightarrow> string \<Rightarrow> int option \<Rightarrow> State" where
  "updateScore s key sc =
     (let ident = toLowerCase key;
          tierName = tierNameOf sc;
          dat = map_option (\<lambda>d. d\<lparr>score := sc, tier := tierName, fetched := True\<rparr>)
                  (identifierData s ident);
          s1 = s\<lparr>identifierData := (identifierData s)(ident := dat),
                 className := setTierClass (className s) (regGet (targetElements s) ident) tierName\<rparr>
      in case (currentHover s1, dat) of
           (Some (el, hovered), Some d) \<Rightarrow>
             if hovered = ident \<and> fetched d then showTooltip s1 el d else s1
         | _ \<Rightarrow> s1)"

text \<open>\<open>queueForScoring(identifier, type)\<close>\<close>

definition queueForScoring :: "State \<Rightarrow> string \<Rightarrow> idtype \<Rightarrow> State" where
  "queueForScoring s ident ty =
     (if \<not> list_ex (\<lambda>q. toLowerCase (fst q) = toLowerCase ident) (scoreQueue s)
      then s\<lparr>scoreQueue := scoreQueue s @ [(ident, ty)], scoreTimeout := True\<rparr>
      else s)"

text \<open>
  The profile part of an iteration, once \<open>getUserByAddress\<close> has returned a user: the
  name and avatar are stored, and a score that is still \<open>null\<close> is replaced by the
  profile's own score when the profile has one (the fallback path), with the tier name and
  the classes of the registered elements.
\<close>

definition applyProfile :: "State \<Rightarrow> string \<Rightarrow> UserResponse \<Rightarrow> State" where
  "applyProfile s key u =
     (case identifierData s key of
        None \<Rightarrow> s
      | Some d \<Rightarrow>
          (let d1 = d\<lparr>ethosName := (if truthy (urDisplayName u) then urDisplayName u
                                      else if truthy (urUsername u) then urUsername u else None),
                      avatarUrl := (if truthy (urAvatarUrl u) then urAvatarUrl u else None)\<rparr>
           in case urScore u of
                Some sc \<Rightarrow>
                  if score d1 = None then
                    (let d2 = d1\<lparr>score := sc, tier := tierNameOf sc\<rparr>
                     in s\<lparr>identifierData := (identifierData s)(key \<mapsto> d2),
                          className := setTierClass (className s)
                                         (regGet (targetElements s) key) (tier d2)\<rparr>)
                  else s\<lparr>identifierData := (identifierData s)(key \<mapsto> d1)\<rparr>
              | None \<Rightarrow> s\<lparr>identifierData := (identifierData s)(key \<mapsto> d1)\<rparr>))"

text \<open>
  The body of the \<open>try\<close> block of an iteration. The result pairs the exception, if one
  was thrown, with the state reached when it was thrown.
\<close>

definition scoreAndProfile :: "Env \<Rightarrow> State \<Rightarrow> string \<Rightarrow> string \<Rightarrow> exn option \<times> State" where
  "scoreAndProfile env s key address =
     (let s1 = s\<lparr>calls := calls s @ [ScoreCall address]\<rparr>
      in case getScoreByAddress env address of
           Throws \<Rightarrow> (Some Exception, s1)
         | Returns r \<Rightarrow>
             (let sc = (case r of None \<Rightarrow> None | Some resp \<Rightarrow> respScore resp);
                  s2 = updateScore s1 key sc;
                  s3 = s2\<lparr>calls := calls s2 @ [UserCall address]\<rparr>
              in case getUserByAddress env address of
                   Throws \<Rightarrow> (Some Exception, s3)
                 | Returns None \<Rightarrow> (None, s3)
                 | Returns (Some u) \<Rightarrow> (None, applyProfile s3 key u)))"

text \<open>\<open>try { ... } catch (e) { updateScore(key, null) }\<close>\<close>

definition tryScore :: "Env \<Rightarrow> State \<Rightarrow> string \<Rightarrow> string \<Rightarrow> exn + State" where
  "tryScore env s key address =
     (case scoreAndProfile env s key address of
        (None, s') \<Rightarrow> Inr s'
      | (Some e, s') \<Rightarrow> Inr (updateScore s' key None))"

text \<open>
  One iteration of \<open>for (const item of batch)\<close>. \<open>Inl\<close> would be an exception that
  leaves the iteration.
\<close>

definition processItem :: "Env \<Rightarrow> State \<Rightarrow> string \<times> idtype \<Rightarrow> exn + State" where
  "processItem env s item =
     (let ident = fst item; key = toLowerCase ident
      in if snd item = Ens \<or> snd item = Base then
           (let s1 = s\<lparr>calls := calls s @ [ResolveCall ident]\<rparr>
            in if truthy (resolveName env ident) then
                 (let resolved = the (resolveName env ident);
                      s2 = s1\<lparr>identifierData :=
                             (identifierData s1)(key :=
                                map_option (\<lambda>d. d\<lparr>resolvedAddress := Some resolved\<rparr>)
                                  (identifierData s1 key))\<rparr>
                  in tryScore env s2 key resolved)
               else Inr (updateScore s1 key None))
         else tryScore env s key ident)"

text \<open>The loop over the batch: an exception that left an iteration would end the loop.\<close>

fun runBatch :: "Env \<Rightarrow> State \<Rightarrow> (string \<times> idtype) list \<Rightarrow> exn + State" where
  "runBatch env s [] = Inr s"
| "runBatch env s (item # rest) =
     (case processItem env s item of
        Inl e \<Rightarrow> Inl e
      | Inr s' \<Rightarrow> runBatch env s' rest)"

text \<open>
  \<open>processScoreQueue\<close>, one dispatch cycle. The function is asynchronous; the model runs a
  cycle as one step, so no other handler runs between its iterations.
\<close>

definition processScoreQueue :: "Env \<Rightarrow> State \<Rightarrow> exn + State" where
  "processScoreQueue env s =
     (if scoreQueue s = [] then Inr s
      else
        (let batch = take 30 (scoreQueue s);
             s1 = s\<lparr>scoreQueue := drop 30 (scoreQueue s), dispatched := dispatched s @ [batch]\<rparr>
         in case runBatch env s1 batch of
              Inl e \<Rightarrow> Inl e
            | Inr s2 \<Rightarrow>
                Inr (if scoreQueue s2 \<noteq> [] then s2\<lparr>scoreTimeout := True\<rparr> else s2)))"

text \<open>
  The collaborator calls one iteration makes, in order: the resolver for a name, then the
  score endpoint unless the name did not resolve, then the profile endpoint unless the
  score call threw.
\<close>

definition scoreCalls :: "Env \<Rightarrow> string \<Rightarrow> call list" where
  "scoreCalls env address =
     (case getScoreByAddress env address of
        Throws \<Rightarrow> [ScoreCall address]
      | Returns r \<Rightarrow> [ScoreCall address, UserCall address])"

definition itemCalls :: "Env \<Rightarrow> string \<times> idtype \<Rightarrow> call list" where
  "itemCalls env item =
     (if snd item = Ens \<or> snd item = Base then
        ResolveCall (fst item) #
          (if truthy (resolveName env (fst item))
           then scoreCalls env (the (resolveName env (fst item))) else [])
      else scoreCalls env (fst item))"

text \<open>
  Two ways an item can fail: a name the resolver returns nothing for, and an item for
  which one of the calls inside the \<open>try\<close> block throws. \<open>addressToScore\<close> is the
  variable of that name once the name, if the item is one, has resolved.
\<close>

definition unresolvable :: "Env \<Rightarrow> string \<times> idtype \<Rightarrow> bool" where
  "unresolvable env item =
     ((snd item = Ens \<or> snd item = Base) \<and> \<not> truthy (resolveName env (fst item)))"

definition addressToScore :: "Env \<Rightarrow> string \<times> idtype \<Rightarrow> string" where
  "addressToScore env item =
     (if snd item = Ens \<or> snd item = Base then the (resolveName env (fst item)) else fst item)"

definition fetchThrows :: "Env \<Rightarrow> string \<times> idtype \<Rightarrow> bool" where
  "fetchThrows env item =
     (\<not> unresolvable env item
      \<and> (getScoreByAddress env (addressToScore env item) = Throws
         \<or> getUserByAddress env (addressToScore env item) = Throws))"

text \<open>A record in the terminal state of a failed item.\<close>

definition markedUnscored :: "IdentifierInfo \<Rightarrow> bool" where
  "markedUnscored d = (fetched d \<and> score d = None \<and> tier d = ''unscored'')"

text \<open>Enqueueing a list of identifiers, one call of \<open>queueForScoring\<close> each.\<close>

definition enqueueAll :: "State \<Rightarrow> (string \<times> idtype) list \<Rightarrow> State" where
  "enqueueAll s items = fold (\<lambda>item st. queueForScoring st (fst item) (snd item)) items s"

subsection \<open>The debounce timer\<close>

text \<open>
  The timeout set by \<open>queueForScoring\<close> and by the end of a cycle calls
  \<open>processScoreQueue\<close>. \<open>runScoreTimers\<close> lets every pending timeout fire, one cycle
  after the other, until none is pending.
\<close>

lemma showTooltip_queue [simp]:
  "scoreQueue (showTooltip s el d) = scoreQueue s"
  "scoreTimeout (showTooltip s el d) = scoreTimeout s"
  by (simp_all add: showTooltip_def)

lemma updateScore_queue [simp]:
  "scoreQueue (updateScore s key sc) = scoreQueue s"
  "scoreTimeout (updateScore s key sc) = scoreTimeout s"
  by (simp_all add: updateScore_def Let_def split: option.split prod.split)

lemma applyProfile_queue [simp]:
  "scoreQueue (applyProfile s key u) = scoreQueue s"
  "scoreTimeout (applyProfile s key u) = scoreTimeout s"
  by (simp_all add: applyProfile_def Let_def split: option.split)

lemma scoreAndProfile_queue:
  "scoreQueue (snd (scoreAndProfile env s key a)) = scoreQueue s"
  "scoreTimeout (snd (scoreAndProfile env s key a)) = scoreTimeout s"
  by (simp_all add: scoreAndProfile_def Let_def split: outcome.split option.split)

lemma tryScore_queue:
  "tryScore env s key a = Inr s' \<Longrightarrow> scoreQueue s' = scoreQueue s \<and> scoreTimeout s' = scoreTimeout s"
  using scoreAndProfile_queue [of env s key a]
  by (auto simp: tryScore_def split: prod.splits option.splits)

lemma processItem_queue:
  "processItem env s item = Inr s' \<Longrightarrow> scoreQueue s' = scoreQueue s \<and> scoreTimeout s' = scoreTimeout s"
  by (auto simp: processItem_def Let_def split: if_splits dest!: tryScore_queue)

lemma runBatch_queue:
  "runBatch env s batch = Inr s' \<Longrightarrow> scoreQueue s' = scoreQueue s \<and> scoreTimeout s' = scoreTimeout s"
proof (induction batch arbitrary: s)
  case Nil
  then show ?case by simp
next
  case (Cons item rest)
  then show ?case
    by (auto split: sum.splits dest!: processItem_queue)
qed

lemma processScoreQueue_queue:
  assumes "processScoreQueue env s = Inr s'"
  shows "scoreQueue s' = drop 30 (scoreQueue s)"
    and "scoreTimeout s' = (scoreTimeout s \<or> drop 30 (scoreQueue s) \<noteq> [])"
  using assms
  by (auto simp: processScoreQueue_def Let_def split: if_splits sum.splits dest!: runBatch_queue)

function runScoreTimers :: "Env \<Rightarrow> State \<Rightarrow> exn + State" where
  "runScoreTimers env s =
     (if scoreTimeout s then
        (case processScoreQueue env (s\<lparr>scoreTimeout := False\<rparr>) of
           Inl e \<Rightarrow> Inl e
         | Inr s' \<Rightarrow> runScoreTimers env s')
      else Inr s)"
  by pat_completeness auto
termination
proof (relation "measure (\<lambda>(env, s). 2 * length (scoreQueue s) + (if scoreTimeout s then 1 else 0))")
  show "wf (measure (\<lambda>(env, s). 2 * length (scoreQueue s) + (if scoreTimeout s then 1 else 0)))"
    by simp
next
  fix env :: Env and s s' :: State
  assume t: "scoreTimeout s" and p: "processScoreQueue env (s\<lparr>scoreTimeout := False\<rparr>) = Inr s'"
  from processScoreQueue_queue [OF p]
  have q: "scoreQueue s' = drop 30 (scoreQueue s)"
    and u: "scoreTimeout s' = (drop 30 (scoreQueue s) \<noteq> [])"
    by simp_all
  show "((env, s'), (env, s)) \<in>
          measure (\<lambda>(env, s). 2 * length (scoreQueue s) + (if scoreTimeout s then 1 else 0))"
    using t q u by (cases "scoreQueue s = []") auto
qed

subsection \<open>Hovering a marker\<close>

text \<open>
  The \<open>mouseenter\<close> listener of a marker span created for \<open>text\<close>, up to the tooltip it
  shows, and the whole listener, which starts a dispatch cycle when the record is not
  fetched yet.
\<close>

definition targetMouseEnter :: "State \<Rightarrow> nat \<Rightarrow> string \<Rightarrow> State" where
  "targetMouseEnter s span txt =
     (let s1 = s\<lparr>isTargetHovered := True, hideTimeout := False,
                  currentHover := Some (span, toLowerCase txt)\<rparr>
      in case identifierData s1 (toLowerCase txt) of
           Some d \<Rightarrow> if fetched d then showTooltip s1 span d else showLoadingTooltip s1 span txt
         | None \<Rightarrow> showLoadingTooltip s1 span txt)"

definition mouseenter :: "Env \<Rightarrow> State \<Rightarrow> nat \<Rightarrow> string \<Rightarrow> exn + State" where
  "mouseenter env s span txt =
     (case identifierData s (toLowerCase txt) of
        Some d \<Rightarrow>
          if fetched d then Inr (targetMouseEnter s span txt)
          else processScoreQueue env (targetMouseEnter s span txt)
      | None \<Rightarrow> processScoreQueue env (targetMouseEnter s span txt))"

subsection \<open>Sample inputs\<close>

text \<open>
  A state right after \<open>init\<close> on an empty page, collaborators that know nobody, and 45
  names \<open>aaa.eth\<close>, \<open>aaaa.eth\<close>, ...
\<close>

definition initState :: State where
  "initState =
     \<lparr>body = Element 0 ''body'' False [], detached = [], className = (\<lambda>el. []), nextId = 1,
      processedNodes = {}, identifierData = (\<lambda>k. None), targetElements = [],
      scoreQueue = [], scoreTimeout = False, pendingNodes = [], observerTimeout = False,
      currentHover = None, isTargetHovered = False, hideTimeout = False, overlayRoot = True,
      tooltip = Blank, tooltipVisible = False, calls = [], dispatched = []\<rparr>"

definition silentEnv :: Env where
  "silentEnv =
     \<lparr>resolveName = (\<lambda>n. None), getScoreByAddress = (\<lambda>a. Returns None),
      getUserByAddress = (\<lambda>a. Returns None)\<rparr>"

definition demoItems :: "(string \<times> idtype) list" where
  "demoItems = map (\<lambda>i. (replicate (3 + i) CHR ''a'' @ ''.eth'', Ens)) [0..<45]"

text \<open>
  A page that shows the name \<open>ghost.eth\<close> once (marker element 2) and an address once
  (marker element 4), both queued and not fetched yet.
\<close>

definition ghostState :: State where
  "ghostState =
     initState\<lparr>
       body := Element 0 ''body'' False
                 [Element 2 ''span'' False [TextNode 3 ''ghost.eth''],
                  Element 4 ''span'' False
                    [TextNode 5 ''0xd8dA6BF26964aF9D7eEd9e03E53415D37aA96045'']],
       className := (\<lambda>el. if el = 2 \<or> el = 4 then ''aura-target unscored'' else []),
       nextId := 6,
       identifierData :=
         [''ghost.eth'' \<mapsto>
            \<lparr>identifierStr = ''ghost.eth'', itype = Ens, score = None, tier = ''unscored'',
             resolvedAddress = None, ethosName = None, avatarUrl = None, fetched = False\<rparr>,
          ''0xd8da6bf26964af9d7eed9e03e53415d37aa96045'' \<mapsto>
            \<lparr>identifierStr = ''0xd8dA6BF26964aF9D7eEd9e03E53415D37aA96045'', itype = Eth,
             score = None, tier = ''unscored'', resolvedAddress = None, ethosName = None,
             avatarUrl = None, fetched = False\<rparr>],
       targetElements :=
         [(''ghost.eth'', [2]), (''0xd8da6bf26964af9d7eed9e03e53415d37aa96045'', [4])],
       scoreQueue := [(''ghost.eth'', Ens), (''0xd8dA6BF26964aF9D7eEd9e03E53415D37aA96045'', Eth)],
       scoreTimeout := True\<rparr>"

text \<open>
  Collaborators for which the score endpoint knows no address and the profile endpoint
  answers with a profile that carries a score of its own.
\<close>

definition profileOnlyEnv :: Env where
  "profileOnlyEnv =
     \<lparr>resolveName = (\<lambda>n. None), getScoreByAddress = (\<lambda>a. Returns None),
      getUserByAddress =
        (\<lambda>a. Returns (Some \<lparr>urDisplayName = Some ''alice'', urUsername = None,
                              urAvatarUrl = None, urScore = Some (Some 1450)\<rparr>))\<rparr>"

section \<open>Annotating the document\<close>

subsection \<open>Looking nodes up\<close>

text \<open>
  The nodes of a subtree in document order, each with its parent element (identity, tag
  name, content-editable) if it has one.
\<close>

type_synonym parentRef = "nat \<times> string \<times> bool"

fun nodesOf :: "parentRef option \<Rightarrow> dnode \<Rightarrow> (parentRef option \<times> dnode) list" where
  "nodesOf p (TextNode i t) = [(p, TextNode i t)]"
| "nodesOf p (Element i tag ce kids) =
     (p, Element i tag ce kids) # concat (map (nodesOf (Some (i, tag, ce))) kids)"

definition allNodes :: "State \<Rightarrow> (parentRef option \<times> dnode) list" where
  "allNodes s = nodesOf None (body s) @ concat (map (nodesOf None) (detached s))"

definition lookupNode :: "State \<Rightarrow> nat \<Rightarrow> (parentRef option \<times> dnode) option" where
  "lookupNode s i = find (\<lambda>pn. nodeId (snd pn) = i) (allNodes s)"

text \<open>\<open>document.body.contains(el)\<close>\<close>

definition bodyContains :: "State \<Rightarrow> nat \<Rightarrow> bool" where
  "bodyContains s el = list_ex (\<lambda>pn. nodeId (snd pn) = el) (nodesOf None (body s))"

text \<open>
  \<open>parent.replaceChild(fragment, node)\<close>: the child \<open>node\<close> gives way to the children of
  the fragment. Node identities are unique, so the replacement is written over the whole
  tree.
\<close>

fun replaceChild :: "nat \<Rightarrow> dnode list \<Rightarrow> dnode \<Rightarrow> dnode" where
  "replaceChild old new (TextNode i t) = TextNode i t"
| "replaceChild old new (Element i tag ce kids) =
     Element i tag ce
       (concat (map (\<lambda>k. if nodeId k = old then new else [replaceChild old new k]) kids))"

definition replaceInDocument :: "State \<Rightarrow> nat \<Rightarrow> dnode list \<Rightarrow> State" where
  "replaceInDocument s old new =
     s\<lparr>body := replaceChild old new (body s),
       detached := map (replaceChild old new) (detached s)\<rparr>"

text \<open>\<open>classList.contains(token)\<close>: the class name split at white space.\<close>

fun splitWords :: "string \<Rightarrow> string \<Rightarrow> string list" where
  "splitWords cur [] = (if cur = [] then [] else [cur])"
| "splitWords cur (c # cs) =
     (if isSpace c then (if cur = [] then splitWords [] cs else cur # splitWords [] cs)
      else splitWords (cur @ [c]) cs)"

definition classListContains :: "string \<Rightarrow> string \<Rightarrow> bool" where
  "classListContains cls token = (token \<in> set (splitWords [] cls))"

subsection \<open>\<open>processTextNode\<close>\<close>

text \<open>
  \<open>createTargetSpan(text, type)\<close>: a new \<open>span\<close> with class \<open>aura-target unscored\<close> and
  the text as its only child. Its \<open>mouseenter\<close> listener is \<open>mouseenter\<close> above.
\<close>

definition createTargetSpan :: "State \<Rightarrow> string \<Rightarrow> idtype \<Rightarrow> dnode \<times> State" where
  "createTargetSpan s txt ty =
     (Element (nextId s) ''span'' False [TextNode (Suc (nextId s)) txt],
      s\<lparr>nextId := nextId s + 2,
        className := (className s)(nextId s := ''aura-target unscored'')\<rparr>)"

text \<open>
  The loop \<open>for (const m of matches)\<close> over the matches sorted by descending index, with
  the variables \<open>remaining\<close> and \<open>fragments\<close>.
\<close>

fun spliceMatches :: "Match list \<Rightarrow> string \<Rightarrow> dnode list \<Rightarrow> State \<Rightarrow> string \<times> dnode list \<times> State" where
  "spliceMatches [] remaining fragments s = (remaining, fragments, s)"
| "spliceMatches (m # ms) remaining fragments s =
     (let after = drop (index m + length (mtext m)) remaining;
          fr1 = (if after \<noteq> [] then TextNode (nextId s) after # fragments else fragments);
          s1 = (if after \<noteq> [] then s\<lparr>nextId := Suc (nextId s)\<rparr> else s);
          span = fst (createTargetSpan s1 (mtext m) (mtype m));
          s2 = snd (createTargetSpan s1 (mtext m) (mtype m));
          key = toLowerCase (mtext m);
          s3 = s2\<lparr>targetElements := regPush (targetElements s2) key (nodeId span)\<rparr>;
          s4 = (if identifierData s3 key = None
                then s3\<lparr>identifierData := (identifierData s3)(key \<mapsto>
                         \<lparr>identifierStr = mtext m, itype = mtype m, score = None,
                          tier = ''unscored'', resolvedAddress = None, ethosName = None,
                          avatarUrl = None, fetched = False\<rparr>)\<rparr>
                else s3);
          s5 = queueForScoring s4 (mtext m) (mtype m)
      in spliceMatches ms (take (index m) remaining) (span # fr1) s5)"

definition skippedTags :: "string list" where
  "skippedTags = [''script'', ''style'', ''textarea'', ''input'', ''noscript'']"

definition processTextNode :: "State \<Rightarrow> nat \<Rightarrow> State" where
  "processTextNode s node =
     (if node \<in> processedNodes s then s
      else
        (case lookupNode s node of
           Some (parent, TextNode i txt) \<Rightarrow>
             if isBlank txt then s
             else
               (case parent of
                  None \<Rightarrow> s
                | Some (pid, tag, editable) \<Rightarrow>
                    if tag \<in> set skippedTags then s
                    else if classListContains (className s pid) ''aura-target'' then s
                    else if editable then s
                    else
                      (let matches = collectMatches txt
                       in if matches = [] then s
                          else
                            (let s1 = s\<lparr>processedNodes := insert node (processedNodes s)\<rparr>;
                                 sorted = sort_key (\<lambda>m. - int (index m)) matches;
                                 r = spliceMatches sorted txt [] s1;
                                 remaining = fst r;
                                 fragments = fst (snd r);
                                 s2 = snd (snd r);
                                 fragments' = (if remaining \<noteq> []
                                               then TextNode (nextId s2) remaining # fragments
                                               else fragments);
                                 s3 = (if remaining \<noteq> [] then s2\<lparr>nextId := Suc (nextId s2)\<rparr>
                                       else s2)
                             in replaceInDocument s3 node fragments')))
         | _ \<Rightarrow> s))"

subsection \<open>\<open>scanDOM\<close>\<close>

text \<open>
  The tree walker of \<open>scanDOM(root)\<close> returns the text nodes below \<open>root\<close> that are not
  blank and whose parent is not one of the skipped elements. The text nodes are collected
  first and processed afterwards, 50 per animation frame; the model processes them in one
  go.
\<close>

definition acceptNode :: "parentRef option \<times> dnode \<Rightarrow> bool" where
  "acceptNode pn =
     (case pn of
        (Some (pid, tag, editable), TextNode i txt) \<Rightarrow> \<not> isBlank txt \<and> tag \<notin> set skippedTags
      | _ \<Rightarrow> False)"

definition walkTextNodes :: "State \<Rightarrow> nat \<Rightarrow> nat list" where
  "walkTextNodes s root =
     (case lookupNode s root of
        Some (p, Element i tag ce kids) \<Rightarrow>
          map (\<lambda>pn. nodeId (snd pn))
            (filter acceptNode (concat (map (nodesOf (Some (i, tag, ce))) kids)))
      | _ \<Rightarrow> [])"

definition scanDOM :: "State \<Rightarrow> nat \<Rightarrow> State" where
  "scanDOM s root = fold (\<lambda>node st. processTextNode st node) (walkTextNodes s root) s"

text \<open>The marker elements in the document: elements under \<open>body\<close> with class \<open>aura-target\<close>.\<close>

definition markers :: "State \<Rightarrow> nat list" where
  "markers s =
     map (\<lambda>pn. nodeId (snd pn))
       (filter (\<lambda>pn. case snd pn of
                        Element i tag ce kids \<Rightarrow> classListContains (className s i) ''aura-target''
                      | TextNode i t \<Rightarrow> False)
          (nodesOf None (body s)))"

subsection \<open>The mutation reconciler\<close>

text \<open>\<open>targetElements.delete(key); identifierData.delete(key)\<close>\<close>

definition forgetIdentifier :: "State \<Rightarrow> string \<Rightarrow> State" where
  "forgetIdentifier s key =
     s\<lparr>targetElements := regDelete (targetElements s) key,
       identifierData := (identifierData s)(key := None)\<rparr>"

text \<open>
  The first loop of \<open>processPendingNodes\<close>, one entry of \<open>targetElements\<close> at a time.
\<close>

definition cleanupEntry :: "State \<Rightarrow> string \<times> nat list \<Rightarrow> State" where
  "cleanupEntry s entry =
     (let connected = filter (bodyContains s) (snd entry)
      in if connected = [] then forgetIdentifier s (fst entry)
         else if length connected \<noteq> length (snd entry) then
           s\<lparr>targetElements := regSet (targetElements s) (fst entry) connected\<rparr>
         else s)"

definition cleanupDisconnected :: "State \<Rightarrow> State" where
  "cleanupDisconnected s = fold (\<lambda>entry st. cleanupEntry st entry) (targetElements s) s"

text \<open>\<open>if (targetElements.size > 500) { ... }\<close>\<close>

definition limitRegistry :: "State \<Rightarrow> State" where
  "limitRegistry s =
     (if length (targetElements s) > 500 then
        (let toRemove = take (length (targetElements s) - 500) (map fst (targetElements s))
         in fold (\<lambda>key st. forgetIdentifier st key) toRemove s)
      else s)"

text \<open>
  The housekeeping of a flush: the pending list is taken, the timer variable cleared, the
  registry cleaned and limited.
\<close>

definition housekeeping :: "State \<Rightarrow> State" where
  "housekeeping s =
     limitRegistry (cleanupDisconnected (s\<lparr>pendingNodes := [], observerTimeout := False\<rparr>))"

definition processNode :: "State \<Rightarrow> nat \<Rightarrow> State" where
  "processNode s node =
     (case lookupNode s node of
        Some (p, TextNode i t) \<Rightarrow> processTextNode s node
      | Some (p, Element i tag ce kids) \<Rightarrow> scanDOM s node
      | None \<Rightarrow> s)"

definition processPendingNodes :: "State \<Rightarrow> State" where
  "processPendingNodes s =
     fold (\<lambda>node st. processNode st node) (pendingNodes s) (housekeeping s)"

text \<open>Whether every element of the registry is attached to the document.\<close>

definition registryAttached :: "State \<Rightarrow> bool" where
  "registryAttached s = list_all (\<lambda>entry. list_all (bodyContains s) (snd entry)) (targetElements s)"

subsection \<open>Sample pages\<close>

text \<open>A page whose only paragraph holds a name directly followed by an address.\<close>

definition namePage :: State where
  "namePage =
     initState\<lparr>
       body := Element 0 ''body'' False
                 [Element 1 ''p'' False
                    [TextNode 2 ''vitalik.eth0xd8dA6BF26964aF9D7eEd9e03E53415D37aA96045'']],
       nextId := 3\<rparr>"

text \<open>A page whose only paragraph holds an address used as the label of a Basename.\<close>

definition basenamePage :: State where
  "basenamePage =
     initState\<lparr>
       body := Element 0 ''body'' False
                 [Element 1 ''p'' False
                    [TextNode 2 ''0xd8dA6BF26964aF9D7eEd9e03E53415D37aA96045.base.eth'']],
       nextId := 3\<rparr>"

text \<open>
  An empty page and a paragraph that was inserted and removed again before the flush: it
  is in the pending list and no longer in the document.
\<close>

definition removedParagraphPage :: State where
  "removedParagraphPage =
     initState\<lparr>
       detached := [Element 1 ''p'' False [TextNode 2 ''vitalik.eth'']],
       nextId := 3,
       pendingNodes := [1],
       observerTimeout := True\<rparr>"

text \<open>
  The registry with every marker list cut down to the elements attached to the document,
  and the identifiers with no attached element left out.
\<close>

definition connectedEntries :: "State \<Rightarrow> (string \<times> nat list) list" where
  "connectedEntries s =
     filter (\<lambda>e. snd e \<noteq> [])
       (map (\<lambda>e. (fst e, filter (bodyContains s) (snd e))) (targetElements s))"

text \<open>
  The page of \<open>ghostState\<close> after the page has removed the marker of the address and
  inserted a paragraph that holds a name: the registry still lists element 4, the
  document no longer holds it, and the paragraph is in the pending list.
\<close>

definition staleRegistryState :: State where
  "staleRegistryState =
     ghostState\<lparr>body := Element 0 ''body'' False
                           [Element 2 ''span'' False [TextNode 3 ''ghost.eth''],
                            Element 6 ''p'' False [TextNode 7 ''vitalik.eth'']],
                nextId := 8,
                pendingNodes := [6],
                observerTimeout := True\<rparr>"

subsection \<open>Node identities\<close>

text \<open>The identities of the elements and of the text nodes of a subtree.\<close>

fun elementIds :: "dnode \<Rightarrow> nat list" where
  "elementIds (TextNode i t) = []"
| "elementIds (Element i tag ce kids) = i # concat (map elementIds kids)"

fun textIds :: "dnode \<Rightarrow> nat list" where
  "textIds (TextNode i t) = [i]"
| "textIds (Element i tag ce kids) = concat (map textIds kids)"

text \<open>
  Identities are handed out from \<open>nextId\<close>: every node of the trees has one below the
  bound \<open>n\<close>, and an element and a text node never have the same.
\<close>

definition wellFormedNodes :: "nat \<Rightarrow> dnode list \<Rightarrow> bool" where
  "wellFormedNodes n ts =
     (list_all (\<lambda>i. i < n) (concat (map elementIds ts) @ concat (map textIds ts))
      \<and> list_all (\<lambda>i. i \<notin> set (concat (map textIds ts))) (concat (map elementIds ts)))"

definition wellFormed :: "State \<Rightarrow> bool" where
  "wellFormed s = wellFormedNodes (nextId s) (body s # detached s)"

text \<open>
  \<open>targetElements\<close> is a \<open>Map<string, HTMLElement[]>\<close>: what it lists are elements that
  exist, not text nodes.
\<close>

definition markersAreElements :: "State \<Rightarrow> bool" where
  "markersAreElements s =
     list_all (\<lambda>e. list_all (\<lambda>el. el < nextId s
                        \<and> el \<notin> set (concat (map textIds (body s # detached s)))) (snd e))
       (targetElements s)"

text \<open>
  What annotating may do to the state, from \<open>s\<close> to \<open>s'\<close>: identities are only handed
  out, the elements of the document stay in the document, a marker list only grows at its
  end and by new elements, and the record of an identifier changes only if the identifier
  has a marker.
\<close>

definition annotates :: "State \<Rightarrow> State \<Rightarrow> bool" where
  "annotates s s' =
     (nextId s \<le> nextId s'
      \<and> set (elementIds (body s)) \<subseteq> set (elementIds (body s'))
      \<and> (\<forall>k. \<exists>news. regGet (targetElements s') k = regGet (targetElements s) k @ news
                    \<and> (\<forall>n \<in> set news. nextId s \<le> n))
      \<and> (\<forall>k. identifierData s' k = identifierData s k \<or> regGet (targetElements s') k \<noteq> []))"

text \<open>Every registered marker is an element of the document.\<close>

definition markersAttached :: "State \<Rightarrow> bool" where
  "markersAttached s =
     (\<forall>k. set (regGet (targetElements s) k) \<subseteq> set (elementIds (body s)))"

text \<open>
  A node that annotation puts its markers into the document for, if it finds it at all: an
  element of the document, a text node of the document, or a text node that has been
  replaced by its fragments.
\<close>

definition settled :: "State \<Rightarrow> nat \<Rightarrow> bool" where
  "settled s n =
     (n \<in> set (elementIds (body s)) \<or> n \<in> set (textIds (body s))
      \<or> (n \<in> processedNodes s \<and> n < nextId s
          \<and> n \<notin> set (concat (map elementIds (body s # detached s)))))"

section \<open>The vault validator (lib/crypto.ts)\<close>
















section \<open>The tier table\<close>

lemma find_tier:
  "find (inTier s) SCORE_TIERS =
     (if s < 0 then None else Some (SCORE_TIERS !
        (if s \<le> 799 then 0 else if s \<le> 999 then 1 else if s \<le> 1199 then 2
         else if s \<le> 1399 then 3 else if s \<le> 1599 then 4 else if s \<le> 1799 then 5
         else if s \<le> 1999 then 6 else if s \<le> 2199 then 7 else if s \<le> 2399 then 8 else 9)))"
  by (simp add: SCORE_TIERS_def inTier_def)

lemma length_SCORE_TIERS: "length SCORE_TIERS = 10"
  by (simp add: SCORE_TIERS_def)

lemma tier_bounds:
  "inTier s (SCORE_TIERS ! 0) = (0 \<le> s \<and> s \<le> 799)"
  "inTier s (SCORE_TIERS ! Suc 0) = (800 \<le> s \<and> s \<le> 999)"
  "inTier s (SCORE_TIERS ! 2) = (1000 \<le> s \<and> s \<le> 1199)"
  "inTier s (SCORE_TIERS ! 3) = (1200 \<le> s \<and> s \<le> 1399)"
  "inTier s (SCORE_TIERS ! 4) = (1400 \<le> s \<and> s \<le> 1599)"
  "inTier s (SCORE_TIERS ! 5) = (1600 \<le> s \<and> s \<le> 1799)"
  "inTier s (SCORE_TIERS ! 6) = (1800 \<le> s \<and> s \<le> 1999)"
  "inTier s (SCORE_TIERS ! 7) = (2000 \<le> s \<and> s \<le> 2199)"
  "inTier s (SCORE_TIERS ! 8) = (2200 \<le> s \<and> s \<le> 2399)"
  "inTier s (SCORE_TIERS ! 9) = (2400 \<le> s)"
  by (simp_all add: SCORE_TIERS_def inTier_def)

lemma in_table_nth:
  assumes "k < 10" and "inTier s (SCORE_TIERS ! k)"
  shows "find (inTier s) SCORE_TIERS = Some (SCORE_TIERS ! k)"
proof -
  from assms(1) have "k = 0 \<or> k = 1 \<or> k = 2 \<or> k = 3 \<or> k = 4 \<or> k = 5
      \<or> k = 6 \<or> k = 7 \<or> k = 8 \<or> k = 9"
    by arith
  then show ?thesis
    using assms(2) by (elim disjE) (simp_all add: tier_bounds find_tier)
qed

lemma in_table:
  assumes "t \<in> set SCORE_TIERS" and "inTier s t"
  shows "getTierForScore (Some s) = Some t"
proof -
  from assms(1) obtain k where "k < 10" and "t = SCORE_TIERS ! k"
    by (auto simp: in_set_conv_nth length_SCORE_TIERS)
  with assms(2) show ?thesis
    by (simp add: getTierForScore_def in_table_nth)
qed

lemma tierNameOf_Some: "tierNameOf (Some s) = getScoreTier (Some s)"
  unfolding tierNameOf_def getTierForScore_def getScoreTier_def option.case find_tier
  by (simp add: SCORE_TIERS_def)

lemma tierNameOf_eq: "tierNameOf sc = getScoreTier sc"
proof (cases sc)
  case None
  then show ?thesis by (simp add: tierNameOf_def getTierForScore_def getScoreTier_def)
next
  case (Some s)
  then show ?thesis by (simp only: tierNameOf_Some)
qed

lemma getTierForScore_in_table:
  "\<exists>t \<in> set SCORE_TIERS. getTierForScore (Some s) = Some t"
  unfolding getTierForScore_def option.case find_tier
  by (simp add: length_SCORE_TIERS)

lemma unscored_not_in_table: "''unscored'' \<notin> set (map name SCORE_TIERS)"
  by (simp add: SCORE_TIERS_def)

text \<open>
  Claim C2. The tier of a score is a total function of the score that follows the
  breakpoint table in both implementations: \<open>getScoreTier\<close> and the name of
  \<open>getTierForScore\<close> agree on every score, 1199 is neutral, 1200 known, 2399 revered,
  2400 renowned, every score from 2400 on is renowned, a score inside a row of the table
  gets that row, and a \<open>null\<close> score gets no tier of the table: \<open>getTierForScore\<close>
  returns \<open>null\<close> and the stored name is \<open>unscored\<close>, which no row carries.
\<close>

theorem tier_table:
  "getScoreTier (Some 1199) = ''neutral'' \<and> tierNameOf (Some 1199) = ''neutral''
   \<and> getScoreTier (Some 1200) = ''known'' \<and> tierNameOf (Some 1200) = ''known''
   \<and> getScoreTier (Some 2399) = ''revered'' \<and> tierNameOf (Some 2399) = ''revered''
   \<and> getScoreTier (Some 2400) = ''renowned'' \<and> tierNameOf (Some 2400) = ''renowned''
   \<and> getScoreTier None = ''unscored'' \<and> getTierForScore None = None
   \<and> tierNameOf None = ''unscored''
   \<and> ''unscored'' \<notin> set (map name SCORE_TIERS)
   \<and> (\<forall>s. 2400 \<le> s \<longrightarrow>
         getScoreTier (Some s) = ''renowned'' \<and> tierNameOf (Some s) = ''renowned'')
   \<and> (\<forall>s. \<forall>t \<in> set SCORE_TIERS. inTier s t \<longrightarrow>
         getTierForScore (Some s) = Some t \<and> getScoreTier (Some s) = name t)
   \<and> (\<forall>s. \<exists>t \<in> set SCORE_TIERS. getTierForScore (Some s) = Some t)
   \<and> (\<forall>sc. tierNameOf sc = getScoreTier sc)"
proof -
  have points: "getScoreTier (Some 1199) = ''neutral''" "getScoreTier (Some 1200) = ''known''"
    "getScoreTier (Some 2399) = ''revered''" "getScoreTier (Some 2400) = ''renowned''"
    "getScoreTier None = ''unscored''" "getTierForScore None = None"
    by (simp_all add: getScoreTier_def getTierForScore_def)
  have top: "getScoreTier (Some s) = ''renowned''" if "2400 \<le> s" for s
    using that by (simp add: getScoreTier_def)
  have table: "getTierForScore (Some s) = Some t \<and> getScoreTier (Some s) = name t"
    if "t \<in> set SCORE_TIERS" "inTier s t" for s t
  proof -
    have g: "getTierForScore (Some s) = Some t" using that by (rule in_table)
    then have "tierNameOf (Some s) = name t" by (simp add: tierNameOf_def)
    with g show ?thesis by (simp add: tierNameOf_eq)
  qed
  show ?thesis
    using points top table getTierForScore_in_table unscored_not_in_table
    by (simp add: tierNameOf_eq)
qed

text \<open>The table row of score 1450 and a score above 2400, through the theorem.\<close>

theorem tier_table_witness:
  "inTier 1450 (SCORE_TIERS ! 4) \<and> SCORE_TIERS ! 4 \<in> set SCORE_TIERS
   \<and> (2400::int) \<le> 2500
   \<and> getTierForScore (Some 1450) = Some (SCORE_TIERS ! 4)
   \<and> getScoreTier (Some 1450) = ''established''
   \<and> getScoreTier (Some 2500) = ''renowned''"
proof -
  have m: "SCORE_TIERS ! 4 \<in> set SCORE_TIERS"
    by (simp add: length_SCORE_TIERS)
  have i: "inTier 1450 (SCORE_TIERS ! 4)"
    by (simp add: tier_bounds)
  have n: "name (SCORE_TIERS ! 4) = ''established''"
    by (simp add: SCORE_TIERS_def)
  from tier_table have
    "\<forall>s. \<forall>t \<in> set SCORE_TIERS. inTier s t \<longrightarrow>
         getTierForScore (Some s) = Some t \<and> getScoreTier (Some s) = name t"
    and "\<forall>s. 2400 \<le> s \<longrightarrow>
         getScoreTier (Some s) = ''renowned'' \<and> tierNameOf (Some s) = ''renowned''"
    by blast+
  with m i n show ?thesis by auto
qed

section \<open>Escaping\<close>

lemma replaceAll_notin:
  "d \<notin> set r \<Longrightarrow> d = c \<or> d \<notin> set text \<Longrightarrow> d \<notin> set (replaceAll c r text)"
  by (auto simp: replaceAll_def split: if_splits)

lemma escapeHtml_chars:
  "CHR ''<'' \<notin> set (escapeHtml s) \<and> CHR ''>'' \<notin> set (escapeHtml s)
   \<and> CHR 0x22 \<notin> set (escapeHtml s) \<and> CHR 0x27 \<notin> set (escapeHtml s)"
proof -
  let ?a = "replaceAll CHR ''&'' ''&amp;'' s"
  let ?b = "replaceAll CHR ''<'' ''&lt;'' ?a"
  let ?c = "replaceAll CHR ''>'' ''&gt;'' ?b"
  let ?d = "replaceAll (CHR 0x22) ''&quot;'' ?c"
  let ?e = "replaceAll (CHR 0x27) ''&#039;'' ?d"
  have lt_b: "CHR ''<'' \<notin> set ?b" by (rule replaceAll_notin) simp_all
  then have lt_c: "CHR ''<'' \<notin> set ?c" by (intro replaceAll_notin) simp_all
  then have lt_d: "CHR ''<'' \<notin> set ?d" by (intro replaceAll_notin) simp_all
  then have lt_e: "CHR ''<'' \<notin> set ?e" by (intro replaceAll_notin) simp_all
  have gt_c: "CHR ''>'' \<notin> set ?c" by (rule replaceAll_notin) simp_all
  then have gt_d: "CHR ''>'' \<notin> set ?d" by (intro replaceAll_notin) simp_all
  then have gt_e: "CHR ''>'' \<notin> set ?e" by (intro replaceAll_notin) simp_all
  have dq_d: "CHR 0x22 \<notin> set ?d" by (rule replaceAll_notin) simp_all
  then have dq_e: "CHR 0x22 \<notin> set ?e" by (intro replaceAll_notin) simp_all
  have sq_e: "CHR 0x27 \<notin> set ?e" by (rule replaceAll_notin) simp_all
  from lt_e gt_e dq_e sq_e show ?thesis by (simp add: escapeHtml_def)
qed

lemma replaceAll_append: "replaceAll c r (a @ b) = replaceAll c r a @ replaceAll c r b"
  by (simp add: replaceAll_def)

lemma escapeHtml_append: "escapeHtml (a @ b) = escapeHtml a @ escapeHtml b"
  by (simp add: escapeHtml_def replaceAll_append)

lemma escapeHtml_single: "escapeHtml [c] = entityOf c"
  by (simp add: escapeHtml_def replaceAll_def entityOf_def)

lemma escapeHtml_entities: "escapeHtml s = concat (map entityOf s)"
proof (induction s)
  case Nil
  show ?case by (simp add: escapeHtml_def replaceAll_def)
next
  case (Cons c s)
  have "escapeHtml (c # s) = escapeHtml ([c] @ s)" by simp
  also have "\<dots> = entityOf c @ escapeHtml s"
    by (simp only: escapeHtml_append escapeHtml_single)
  finally show ?case by (simp add: Cons.IH)
qed

text \<open>
  Claim C10. For every string, \<open>escapeHtml\<close> replaces each of \<open>&\<close>, \<open><\<close>, \<open>>\<close>, the
  double quote and the single quote by its entity and keeps every other character, as
  if \<open>&\<close> were replaced first: an entity written for one character is not escaped again.
  The result holds none of \<open><\<close>, \<open>>\<close>, double quote and single quote. So the title, the
  subtitle and the identifier that \<open>showTooltip\<close> writes into the markup of the tooltip
  hold none of them, whatever the record holds.
\<close>

theorem escapeHtml_no_markup:
  "escapeHtml s = concat (map entityOf s)
   \<and> escapeHtml ''<b a=\"1\">&lt;'' = ''&lt;b a=&quot;1&quot;&gt;&amp;lt;''
   \<and> markupFree (escapeHtml s)
   \<and> markupFree (ptName (renderProfile el d))
   \<and> markupFree (ptId (renderProfile el d))
   \<and> (case ptSubtitle (renderProfile el d) of None \<Rightarrow> True | Some t \<Rightarrow> markupFree t)"
proof -
  have m: "markupFree (escapeHtml t)" for t
    using escapeHtml_chars [of t] by (simp add: markupFree_def)
  have e: "escapeHtml ''<b a=\"1\">&lt;'' = ''&lt;b a=&quot;1&quot;&gt;&amp;lt;''"
    by (simp add: escapeHtml_entities entityOf_def)
  have r: "markupFree (ptName (renderProfile el d))
      \<and> markupFree (ptId (renderProfile el d))
      \<and> (case ptSubtitle (renderProfile el d) of None \<Rightarrow> True | Some t \<Rightarrow> markupFree t)"
    by (simp add: renderProfile_def m)
  from escapeHtml_entities [of s] e m [of s] r show ?thesis
    by blast
qed

section \<open>The vault validator\<close>






section \<open>The cache keeps at most 501 entries\<close>

lemma fold_cacheDelete:
  "fold (\<lambda>(k, v) m. if P v then cacheDelete m k else m) xs m =
     filter (\<lambda>(k', v'). \<not> (\<exists>v. (k', v) \<in> set xs \<and> P v)) m"
proof (induction xs arbitrary: m)
  case Nil
  show ?case by simp
next
  case (Cons x xs)
  obtain k v where x: "x = (k, v)" by (cases x)
  show ?case
    unfolding x by (auto simp: Cons.IH cacheDelete_def intro!: filter_cong)
qed

lemma distinct_keys_unique:
  "distinct (map fst c) \<Longrightarrow> (k, v) \<in> set c \<Longrightarrow> (k, v') \<in> set c \<Longrightarrow> v = v'"
  by (meson eq_key_imp_eq_value)

lemma purgeExpired_filter:
  assumes "distinct (map fst c)"
  shows "purgeExpired c now = filter (\<lambda>(k, v). \<not> now > expiresAt v) c"
  unfolding purgeExpired_def fold_cacheDelete
  by (rule filter_cong) (auto dest: distinct_keys_unique [OF assms])

lemma fold_cacheDelete_all:
  "fold (\<lambda>(k, v) m. cacheDelete m k) xs m = filter (\<lambda>(k', v'). k' \<notin> fst ` set xs) m"
proof (induction xs arbitrary: m)
  case Nil
  show ?case by simp
next
  case (Cons x xs)
  obtain k v where x: "x = (k, v)" by (cases x)
  have "fold (\<lambda>(k, v) m. cacheDelete m k) (x # xs) m =
          fold (\<lambda>(k, v) m. cacheDelete m k) xs (cacheDelete m k)"
    by (simp add: x)
  also have "\<dots> = filter (\<lambda>(k', v'). k' \<notin> fst ` set xs) (cacheDelete m k)"
    by (rule Cons.IH)
  also have "\<dots> = filter (\<lambda>(k', v'). k' \<notin> fst ` set (x # xs)) m"
    by (auto simp: x cacheDelete_def intro!: filter_cong)
  finally show ?case .
qed

lemma evictOldest_filter:
  "evictOldest c =
     filter (\<lambda>(k, v). k \<notin> fst ` set (take (length c - 500) (sort_key (\<lambda>(k, v). expiresAt v) c))) c"
  unfolding evictOldest_def Let_def fold_cacheDelete_all ..

lemma keys_inj: "distinct (map fst c) \<Longrightarrow> x \<in> set c \<Longrightarrow> y \<in> set c \<Longrightarrow> fst x = fst y \<Longrightarrow> x = y"
  by (metis distinct_keys_unique prod.collapse)

lemma evictOldest_victims:
  assumes "distinct (map fst c)"
  shows "evictOldest c =
     filter (\<lambda>x. x \<notin> set (take (length c - 500) (sort_key (\<lambda>(k, v). expiresAt v) c))) c"
proof -
  let ?T = "set (take (length c - 500) (sort_key (\<lambda>(k, v). expiresAt v) c))"
  have sub: "?T \<subseteq> set c"
    using set_take_subset [of "length c - 500" "sort_key (\<lambda>(k, v). expiresAt v) c"] by simp
  have "(fst x \<in> fst ` ?T) = (x \<in> ?T)" if "x \<in> set c" for x
  proof
    assume "fst x \<in> fst ` ?T"
    then obtain y where y: "y \<in> ?T" "fst x = fst y" by auto
    with sub have "y \<in> set c" by auto
    with keys_inj [OF assms that this] y show "x \<in> ?T" by simp
  qed auto
  then show ?thesis
    unfolding evictOldest_filter by (intro filter_cong) (auto simp: case_prod_beta)
qed

lemma length_evictOldest:
  assumes "distinct (map fst c)" and "length c > 500"
  shows "length (evictOldest c) = 500"
proof -
  let ?s = "sort_key (\<lambda>(k, v). expiresAt v) c"
  let ?T = "set (take (length c - 500) ?s)"
  have dc: "distinct c" using assms(1) by (rule distinct_map [THEN iffD1, THEN conjunct1])
  have sub: "?T \<subseteq> set c"
    using set_take_subset [of "length c - 500" ?s] by simp
  have "distinct (take (length c - 500) ?s)" using dc by simp
  then have cT: "card ?T = length c - 500"
    by (simp add: distinct_card)
  have "distinct (filter (\<lambda>x. x \<notin> ?T) c)" using dc by simp
  then have "length (evictOldest c) = card (set (filter (\<lambda>x. x \<notin> ?T) c))"
    unfolding evictOldest_victims [OF assms(1)] by (rule distinct_card [symmetric])
  also have "set (filter (\<lambda>x. x \<notin> ?T) c) = set c - ?T" by auto
  also have "card (set c - ?T) = card (set c) - card ?T"
    using sub by (intro card_Diff_subset) (auto intro: finite_subset)
  also have "\<dots> = 500" using cT dc assms(2) by (simp add: distinct_card)
  finally show ?thesis .
qed

lemma evictOldest_order:
  assumes "distinct (map fst c)" and "x \<in> set c" and "x \<notin> set (evictOldest c)"
    and "y \<in> set (evictOldest c)"
  shows "expiresAt (snd x) \<le> expiresAt (snd y)"
proof -
  let ?f = "\<lambda>(k, v). expiresAt v"
  let ?s = "sort_key ?f c"
  let ?m = "length c - 500"
  from assms(2,3) have x: "x \<in> set (take ?m ?s)"
    unfolding evictOldest_victims [OF assms(1)] by auto
  from assms(4) have "y \<in> set c" "y \<notin> set (take ?m ?s)"
    unfolding evictOldest_victims [OF assms(1)] by auto
  moreover have "set c = set (take ?m ?s) \<union> set (drop ?m ?s)"
    using set_append [of "take ?m ?s" "drop ?m ?s"] by simp
  ultimately have y: "y \<in> set (drop ?m ?s)" by auto
  have "map ?f ?s = map ?f (take ?m ?s) @ map ?f (drop ?m ?s)"
    by (simp only: map_append [symmetric] append_take_drop_id)
  moreover have "sorted (map ?f ?s)" by (rule sorted_sort_key)
  ultimately have "sorted (map ?f (take ?m ?s) @ map ?f (drop ?m ?s))" by simp
  then have "\<forall>a \<in> set (take ?m ?s). \<forall>b \<in> set (drop ?m ?s). ?f a \<le> ?f b"
    unfolding sorted_append by auto
  with x y have "?f x \<le> ?f y" by blast
  then show ?thesis by (simp add: case_prod_beta)
qed

lemma trimCache_small: "length c \<le> 500 \<Longrightarrow> trimCache c now = c"
  by (simp add: trimCache_def)

lemma purgeExpired_unexpired:
  assumes "distinct (map fst c)"
  shows "purgeExpired c now = filter (\<lambda>x. now \<le> expiresAt (snd x)) c"
  unfolding purgeExpired_filter [OF assms]
  by (rule filter_cong) (auto simp: case_prod_beta)

lemma set_evictOldest: "set (evictOldest c) \<subseteq> set c"
  unfolding evictOldest_filter by auto

lemma trimCache_large:
  assumes d: "distinct (map fst c)" and big: "500 < length c"
  shows "set (trimCache c now) \<subseteq> {x \<in> set c. now \<le> expiresAt (snd x)}"
    and "length (trimCache c now) = min 500 (length (filter (\<lambda>x. now \<le> expiresAt (snd x)) c))"
    and "\<And>x y. x \<in> set c \<Longrightarrow> now \<le> expiresAt (snd x) \<Longrightarrow> x \<notin> set (trimCache c now) \<Longrightarrow>
           y \<in> set (trimCache c now) \<Longrightarrow> expiresAt (snd x) \<le> expiresAt (snd y)"
proof -
  let ?c2 = "filter (\<lambda>x. now \<le> expiresAt (snd x)) c"
  have p: "purgeExpired c now = ?c2" by (rule purgeExpired_unexpired [OF d])
  have d2: "distinct (map fst ?c2)" using d by (rule distinct_map_filter)
  have t: "trimCache c now = (if 500 < length ?c2 then evictOldest ?c2 else ?c2)"
    using big by (simp add: trimCache_def p)
  show "set (trimCache c now) \<subseteq> {x \<in> set c. now \<le> expiresAt (snd x)}"
    using set_evictOldest [of ?c2] by (auto simp: t)
  show "length (trimCache c now) = min 500 (length ?c2)"
    using length_evictOldest [OF d2] by (simp add: t)
  fix x y
  assume "x \<in> set c" "now \<le> expiresAt (snd x)" "x \<notin> set (trimCache c now)"
    "y \<in> set (trimCache c now)"
  then show "expiresAt (snd x) \<le> expiresAt (snd y)"
    using evictOldest_order [OF d2, of x y] by (auto simp: t split: if_splits)
qed

lemma length_trimCache: "distinct (map fst c) \<Longrightarrow> length (trimCache c now) \<le> 500"
  using trimCache_large(2) [of c now] trimCache_small [of c now]
  by (cases "500 < length c") auto

lemma length_cacheSet:
  "length (cacheSet c k e) = (if k \<in> fst ` set c then length c else Suc (length c))"
  by (simp add: cacheSet_def)

lemma cacheGet_cacheSet: "cacheGet (cacheSet c k e) k = Some e"
proof (cases "k \<in> fst ` set c")
  case True
  then have "map_of (map (\<lambda>(k', v). if k' = k then (k', e) else (k', v)) c) k = Some e"
    by (induction c) (auto simp: case_prod_beta)
  with True show ?thesis by (simp only: cacheSet_def cacheGet_def if_True)
next
  case False
  then have "map_of (c @ [(k, e)]) k = Some e"
    by (induction c) auto
  with False show ?thesis by (simp only: cacheSet_def cacheGet_def if_False)
qed

lemma setCache_full_unexpired:
  assumes d: "distinct (map fst c)" and big: "500 < length c"
    and fresh: "\<forall>x \<in> set c. now \<le> expiresAt (snd x)" and new: "key \<notin> fst ` set c"
  shows "length (trimCache c now) = 500" and "length (setCache c key v ttl now now') = 501"
proof -
  from fresh have all: "filter (\<lambda>x. now \<le> expiresAt (snd x)) c = c" by simp
  from big trimCache_large(2) [OF d big, of now] show l: "length (trimCache c now) = 500"
    by (simp add: all)
  from new trimCache_large(1) [OF d big, of now] have "key \<notin> fst ` set (trimCache c now)"
    by auto
  with l show "length (setCache c key v ttl now now') = 501"
    by (simp add: setCache_def length_cacheSet)
qed

text \<open>
  Claim C4, as amended. \<open>setCache\<close> checks the size before it inserts, and only a cache
  of more than 500 entries is trimmed. With at most 500 entries nothing is deleted, expired
  or not. With more than 500 entries every expired entry is deleted first; if more than 500
  unexpired entries remain, entries are deleted in ascending order of \<open>expiresAt\<close> until
  exactly 500 are left (an evicted unexpired entry never expires later than a kept one).
  The new entry is stored after that, so the cache holds at most 501 entries after the
  call, and exactly 501 after inserting a new key into a cache of more than 500 unexpired
  entries.
\<close>

theorem setCache_trims_before_insert:
  assumes "distinct (map fst c)"
  shows "(length c \<le> 500 \<longrightarrow>
            setCache c key d ttl now now' = cacheSet c key \<lparr>data = d, expiresAt = now' + ttl\<rparr>)
    \<and> (500 < length c \<longrightarrow>
          set (trimCache c now) \<subseteq> {x \<in> set c. now \<le> expiresAt (snd x)}
        \<and> length (trimCache c now) =
            min 500 (length (filter (\<lambda>x. now \<le> expiresAt (snd x)) c))
        \<and> (\<forall>x \<in> set c. \<forall>y \<in> set (trimCache c now).
              now \<le> expiresAt (snd x) \<and> x \<notin> set (trimCache c now) \<longrightarrow>
              expiresAt (snd x) \<le> expiresAt (snd y)))
    \<and> length (setCache c key d ttl now now') \<le> 501
    \<and> (500 < length c \<and> (\<forall>x \<in> set c. now \<le> expiresAt (snd x)) \<and> key \<notin> fst ` set c \<longrightarrow>
          length (trimCache c now) = 500 \<and> length (setCache c key d ttl now now') = 501)
    \<and> cacheGet (setCache c key d ttl now now') key = Some \<lparr>data = d, expiresAt = now' + ttl\<rparr>"
proof (intro conjI impI)
  assume "length c \<le> 500"
  then show "setCache c key d ttl now now' = cacheSet c key \<lparr>data = d, expiresAt = now' + ttl\<rparr>"
    by (simp add: setCache_def trimCache_small)
next
  assume "500 < length c"
  then show "set (trimCache c now) \<subseteq> {x \<in> set c. now \<le> expiresAt (snd x)}"
    by (rule trimCache_large(1) [OF assms])
next
  assume "500 < length c"
  then show "length (trimCache c now) =
            min 500 (length (filter (\<lambda>x. now \<le> expiresAt (snd x)) c))"
    by (rule trimCache_large(2) [OF assms])
next
  assume "500 < length c"
  then show "\<forall>x \<in> set c. \<forall>y \<in> set (trimCache c now).
              now \<le> expiresAt (snd x) \<and> x \<notin> set (trimCache c now) \<longrightarrow>
              expiresAt (snd x) \<le> expiresAt (snd y)"
    using trimCache_large(3) [OF assms] by blast
next
  show "length (setCache c key d ttl now now') \<le> 501"
    using length_trimCache [OF assms, of now] by (simp add: setCache_def length_cacheSet)
next
  assume a: "500 < length c \<and> (\<forall>x \<in> set c. now \<le> expiresAt (snd x)) \<and> key \<notin> fst ` set c"
  then show "length (trimCache c now) = 500"
    using setCache_full_unexpired(1) [OF assms] by blast
  from a show "length (setCache c key d ttl now now') = 501"
    using setCache_full_unexpired(2) [OF assms] by blast
next
  show "cacheGet (setCache c key d ttl now now') key = Some \<lparr>data = d, expiresAt = now' + ttl\<rparr>"
    by (simp add: setCache_def cacheGet_cacheSet)
qed

lemma demoCache_keys: "distinct (map fst (demoCache n))"
proof -
  have "inj_on (\<lambda>i. replicate (Suc i) CHR ''k'') (set [0..<n])"
    by (rule inj_onI) (simp add: replicate_eq_replicate del: replicate_Suc)
  then show ?thesis
    by (simp add: demoCache_def comp_def distinct_map del: replicate_Suc)
qed

lemma demoCache_length: "length (demoCache n) = n"
  by (simp add: demoCache_def)

lemma demoCache_unexpired: "x \<in> set (demoCache n) \<Longrightarrow> 0 \<le> expiresAt (snd x)"
  by (auto simp: demoCache_def)

lemma demoCache_new_key: "''score:new'' \<notin> fst ` set (demoCache n)"
  by (auto simp: demoCache_def)

text \<open>
  The theorem at a cache of 501 unexpired entries and a new key: 500 entries are left
  before the insertion and 501 after it.
\<close>

theorem setCache_trims_before_insert_witness:
  "distinct (map fst (demoCache 501)) \<and> 500 < length (demoCache 501)
   \<and> noneExpired (demoCache 501) 0
   \<and> ''score:new'' \<notin> fst ` set (demoCache 501)
   \<and> length (trimCache (demoCache 501) 0) = 500
   \<and> length (setCache (demoCache 501) ''score:new'' () TTL_score 0 0) = 501"
proof -
  have u: "\<forall>x \<in> set (demoCache 501). 0 \<le> expiresAt (snd x)"
    using demoCache_unexpired by blast
  have n: "noneExpired (demoCache 501) 0"
    by (simp add: noneExpired_def demoCache_def list_all_iff)
  have l: "500 < length (demoCache 501)"
    by (simp add: demoCache_length)
  note t = setCache_trims_before_insert [OF demoCache_keys, of 501 "''score:new''" "()" TTL_score 0 0]
  from t u l demoCache_new_key [of 501]
  have "length (trimCache (demoCache 501) 0) = 500
    \<and> length (setCache (demoCache 501) ''score:new'' () TTL_score 0 0) = 501"
    by blast
  with n l demoCache_keys [of 501] demoCache_new_key [of 501] show ?thesis
    by blast
qed

text \<open>
  Claim C4 as stated fails. A cache of 501 unexpired entries holds 501 entries again after
  the insertion of a new key, not 500. And an insertion into a cache of exactly 500 entries,
  all of them expired, exceeds the ceiling without deleting a single expired entry.
\<close>

theorem setCache_ceiling_counterexample:
  "length (demoCache 501) = 501 \<and> noneExpired (demoCache 501) 0
   \<and> length (setCache (demoCache 501) ''score:new'' () TTL_score 0 0) = 501
   \<and> length (demoCache 500) = 500 \<and> allExpired (demoCache 500) 1000
   \<and> setCache (demoCache 500) ''score:new'' () TTL_score 1000 1000 =
       demoCache 500 @ [(''score:new'', \<lparr>data = (), expiresAt = 1000 + TTL_score\<rparr>)]"
proof -
  have a: "noneExpired (demoCache 501) 0"
    by (simp add: noneExpired_def demoCache_def list_all_iff)
  have b: "length (setCache (demoCache 501) ''score:new'' () TTL_score 0 0) = 501"
    using demoCache_unexpired [of _ 501]
    by (intro setCache_full_unexpired(2) demoCache_keys demoCache_new_key)
      (simp_all add: demoCache_length)
  have c: "allExpired (demoCache 500) 1000"
    by (simp add: allExpired_def demoCache_def list_all_iff)
  have d: "setCache (demoCache 500) ''score:new'' () TTL_score 1000 1000 =
       demoCache 500 @ [(''score:new'', \<lparr>data = (), expiresAt = 1000 + TTL_score\<rparr>)]"
    using demoCache_new_key [of 500]
    by (simp add: setCache_def trimCache_small demoCache_length cacheSet_def)
  from a b c d show ?thesis by (simp add: demoCache_length)
qed

section \<open>Dispatch cycles of the batcher\<close>

lemma showTooltip_trace [simp]:
  "calls (showTooltip s el d) = calls s"
  "dispatched (showTooltip s el d) = dispatched s"
  by (simp_all add: showTooltip_def)

lemma updateScore_trace [simp]:
  "calls (updateScore s key sc) = calls s"
  "dispatched (updateScore s key sc) = dispatched s"
  by (simp_all add: updateScore_def Let_def split: option.split prod.split)

lemma applyProfile_trace [simp]:
  "calls (applyProfile s key u) = calls s"
  "dispatched (applyProfile s key u) = dispatched s"
  by (simp_all add: applyProfile_def Let_def split: option.split)

lemma scoreAndProfile_trace:
  "calls (snd (scoreAndProfile env s key a)) = calls s @ scoreCalls env a"
  "dispatched (snd (scoreAndProfile env s key a)) = dispatched s"
  by (simp_all add: scoreAndProfile_def scoreCalls_def Let_def split: outcome.split option.split)

lemma tryScore_total:
  "\<exists>s'. tryScore env s key a = Inr s' \<and> calls s' = calls s @ scoreCalls env a
        \<and> dispatched s' = dispatched s"
  using scoreAndProfile_trace [of env s key a]
  by (auto simp: tryScore_def split: prod.splits option.splits)

lemma processItem_total:
  "\<exists>s'. processItem env s item = Inr s' \<and> calls s' = calls s @ itemCalls env item
        \<and> dispatched s' = dispatched s"
proof (cases "snd item = Ens \<or> snd item = Base")
  case False
  then show ?thesis
    using tryScore_total [of env s "toLowerCase (fst item)" "fst item"]
    by (auto simp: processItem_def itemCalls_def Let_def)
next
  case True
  show ?thesis
  proof (cases "truthy (resolveName env (fst item))")
    case r: True
    let ?s2 = "s\<lparr>calls := calls s @ [ResolveCall (fst item)],
                 identifierData := (identifierData s)(toLowerCase (fst item) :=
                    map_option (\<lambda>d. d\<lparr>resolvedAddress := Some (the (resolveName env (fst item)))\<rparr>)
                      (identifierData s (toLowerCase (fst item))))\<rparr>"
    from tryScore_total [of env ?s2 "toLowerCase (fst item)" "the (resolveName env (fst item))"]
    show ?thesis using True r
      by (auto simp: processItem_def itemCalls_def Let_def)
  next
    case r: False
    then show ?thesis using True
      by (auto simp: processItem_def itemCalls_def Let_def)
  qed
qed

lemma runBatch_total:
  "\<exists>s'. runBatch env s batch = Inr s' \<and> calls s' = calls s @ concat (map (itemCalls env) batch)
        \<and> dispatched s' = dispatched s"
proof (induction batch arbitrary: s)
  case Nil
  show ?case by simp
next
  case (Cons item rest)
  obtain s1 where s1: "processItem env s item = Inr s1" "calls s1 = calls s @ itemCalls env item"
    "dispatched s1 = dispatched s"
    using processItem_total by blast
  from Cons.IH [of s1] obtain s2 where "runBatch env s1 rest = Inr s2"
    "calls s2 = calls s1 @ concat (map (itemCalls env) rest)" "dispatched s2 = dispatched s1"
    by blast
  with s1 show ?case by simp
qed

lemma processScoreQueue_cycle:
  assumes "scoreQueue s \<noteq> []"
  shows "\<exists>s'. processScoreQueue env s = Inr s'
      \<and> scoreQueue s' = drop 30 (scoreQueue s)
      \<and> scoreTimeout s' = (scoreTimeout s \<or> drop 30 (scoreQueue s) \<noteq> [])
      \<and> dispatched s' = dispatched s @ [take 30 (scoreQueue s)]
      \<and> calls s' = calls s @ concat (map (itemCalls env) (take 30 (scoreQueue s)))"
proof -
  let ?s1 = "s\<lparr>scoreQueue := drop 30 (scoreQueue s),
                dispatched := dispatched s @ [take 30 (scoreQueue s)]\<rparr>"
  obtain s2 where s2: "runBatch env ?s1 (take 30 (scoreQueue s)) = Inr s2"
    "calls s2 = calls ?s1 @ concat (map (itemCalls env) (take 30 (scoreQueue s)))"
    "dispatched s2 = dispatched ?s1"
    using runBatch_total by blast
  from runBatch_queue [OF s2(1)] have q: "scoreQueue s2 = drop 30 (scoreQueue s)"
    "scoreTimeout s2 = scoreTimeout s" by simp_all
  show ?thesis
    using assms s2 q by (simp add: processScoreQueue_def Let_def)
qed

lemma queueForScoring_new:
  "toLowerCase idn \<notin> set (map (\<lambda>q. toLowerCase (fst q)) (scoreQueue s)) \<Longrightarrow>
     queueForScoring s idn ty = s\<lparr>scoreQueue := scoreQueue s @ [(idn, ty)], scoreTimeout := True\<rparr>"
proof -
  assume "toLowerCase idn \<notin> set (map (\<lambda>q. toLowerCase (fst q)) (scoreQueue s))"
  then have "\<not> list_ex (\<lambda>q. toLowerCase (fst q) = toLowerCase idn) (scoreQueue s)"
    by (force simp: list_ex_iff)
  then show ?thesis by (simp add: queueForScoring_def)
qed

lemma queueForScoring_dup:
  "toLowerCase idn \<in> set (map (\<lambda>q. toLowerCase (fst q)) (scoreQueue s)) \<Longrightarrow>
     queueForScoring s idn ty = s"
  by (auto simp: queueForScoring_def list_ex_iff)

lemma enqueueAll_distinct:
  assumes "distinct (map (\<lambda>q. toLowerCase (fst q)) (scoreQueue s @ items))" and "items \<noteq> []"
  shows "enqueueAll s items = s\<lparr>scoreQueue := scoreQueue s @ items, scoreTimeout := True\<rparr>"
  using assms
proof (induction items arbitrary: s)
  case Nil
  then show ?case by simp
next
  case (Cons x xs)
  let ?s1 = "s\<lparr>scoreQueue := scoreQueue s @ [x], scoreTimeout := True\<rparr>"
  have q: "queueForScoring s (fst x) (snd x) = ?s1"
    using Cons.prems(1) queueForScoring_new [of "fst x" s "snd x"] by auto
  have e: "enqueueAll s (x # xs) = enqueueAll ?s1 xs"
    by (simp add: enqueueAll_def q)
  show ?case
  proof (cases "xs = []")
    case True
    have "enqueueAll ?s1 [] = ?s1" by (simp add: enqueueAll_def)
    with e True show ?thesis by simp
  next
    case False
    have "distinct (map (\<lambda>q. toLowerCase (fst q)) (scoreQueue ?s1 @ xs))"
      using Cons.prems(1) by simp
    from Cons.IH [OF this False] show ?thesis by (simp add: e)
  qed
qed

lemma runScoreTimers_fire:
  "scoreTimeout s \<Longrightarrow> processScoreQueue env (s\<lparr>scoreTimeout := False\<rparr>) = Inr s' \<Longrightarrow>
     runScoreTimers env s = runScoreTimers env s'"
  by (subst runScoreTimers.simps) simp

lemma runScoreTimers_idle: "\<not> scoreTimeout s \<Longrightarrow> runScoreTimers env s = Inr s"
  by (subst runScoreTimers.simps) simp

text \<open>
  Claim C3. When 45 identifiers, no two equal up to case, are enqueued into an empty queue
  before the debounce timer fires, the queue holds them in enqueue order, and letting the
  timers fire runs exactly two dispatch cycles: the first takes the first 30 items, the
  second the remaining 15, and the collaborator calls of the items follow one another in
  enqueue order within each cycle. An identifier that is in the pending queue up to case is
  not enqueued again.
\<close>

theorem forty_five_identifiers_two_cycles:
  assumes len: "length items = 45"
    and dist: "distinct (map (\<lambda>q. toLowerCase (fst q)) items)"
    and empty: "scoreQueue s = []"
  shows "scoreQueue (enqueueAll s items) = items
    \<and> (\<exists>s'. runScoreTimers env (enqueueAll s items) = Inr s'
          \<and> dispatched s' = dispatched s @ [take 30 items, drop 30 items]
          \<and> length (take 30 items) = 30 \<and> length (drop 30 items) = 15
          \<and> calls s' = calls s @ concat (map (itemCalls env) (take 30 items))
                               @ concat (map (itemCalls env) (drop 30 items))
          \<and> scoreQueue s' = [] \<and> \<not> scoreTimeout s')
    \<and> (\<forall>st idn ty. list_ex (\<lambda>q. toLowerCase (fst q) = toLowerCase idn) (scoreQueue st)
          \<longrightarrow> queueForScoring st idn ty = st)"
proof (intro conjI)
  from len have ne: "items \<noteq> []" by auto
  let ?s0 = "s\<lparr>scoreQueue := items, scoreTimeout := True\<rparr>"
  have s0: "enqueueAll s items = ?s0"
    using enqueueAll_distinct [of s items] dist ne empty by simp
  show "scoreQueue (enqueueAll s items) = items" by (simp add: s0)
  obtain s1 where s1: "processScoreQueue env (?s0\<lparr>scoreTimeout := False\<rparr>) = Inr s1"
    "scoreQueue s1 = drop 30 items" "scoreTimeout s1 = (drop 30 items \<noteq> [])"
    "dispatched s1 = dispatched s @ [take 30 items]"
    "calls s1 = calls s @ concat (map (itemCalls env) (take 30 items))"
    using processScoreQueue_cycle [of "?s0\<lparr>scoreTimeout := False\<rparr>" env] ne by auto
  from len have d: "drop 30 items \<noteq> []" "length (drop 30 items) = 15" by auto
  have t1: "scoreTimeout s1" using s1(3) d by simp
  obtain s2 where s2: "processScoreQueue env (s1\<lparr>scoreTimeout := False\<rparr>) = Inr s2"
    "scoreQueue s2 = drop 30 (drop 30 items)" "scoreTimeout s2 = (drop 30 (drop 30 items) \<noteq> [])"
    "dispatched s2 = dispatched s1 @ [take 30 (drop 30 items)]"
    "calls s2 = calls s1 @ concat (map (itemCalls env) (take 30 (drop 30 items)))"
    using processScoreQueue_cycle [of "s1\<lparr>scoreTimeout := False\<rparr>" env] d s1(2) by auto
  have e2: "scoreQueue s2 = []" "\<not> scoreTimeout s2" "take 30 (drop 30 items) = drop 30 items"
    using s2(2,3) len by auto
  have "runScoreTimers env (enqueueAll s items) = runScoreTimers env s1"
    unfolding s0 by (rule runScoreTimers_fire [OF _ s1(1)]) simp
  also have "\<dots> = runScoreTimers env s2"
    by (rule runScoreTimers_fire [OF t1 s2(1)])
  also have "\<dots> = Inr s2"
    by (rule runScoreTimers_idle [OF e2(2)])
  finally have r: "runScoreTimers env (enqueueAll s items) = Inr s2" .
  show "\<exists>s'. runScoreTimers env (enqueueAll s items) = Inr s'
          \<and> dispatched s' = dispatched s @ [take 30 items, drop 30 items]
          \<and> length (take 30 items) = 30 \<and> length (drop 30 items) = 15
          \<and> calls s' = calls s @ concat (map (itemCalls env) (take 30 items))
                               @ concat (map (itemCalls env) (drop 30 items))
          \<and> scoreQueue s' = [] \<and> \<not> scoreTimeout s'"
    using r s1 s2 e2 d len by (intro exI [of _ s2]) simp
  show "\<forall>st idn ty. list_ex (\<lambda>q. toLowerCase (fst q) = toLowerCase idn) (scoreQueue st)
          \<longrightarrow> queueForScoring st idn ty = st"
    by (simp add: queueForScoring_def)
qed

lemma toLowerCase_append: "toLowerCase (a @ b) = toLowerCase a @ toLowerCase b"
  by (simp add: toLowerCase_def)

lemma toLowerCase_replicate_a: "toLowerCase (replicate n CHR ''a'') = replicate n CHR ''a''"
  by (simp add: toLowerCase_def toLowerChar_def)

lemma demoItems_distinct: "distinct (map (\<lambda>q. toLowerCase (fst q)) demoItems)"
proof -
  have eq: "map (\<lambda>q. toLowerCase (fst q)) demoItems =
      map (\<lambda>i. replicate (3 + i) CHR ''a'' @ toLowerCase ''.eth'') [0..<45]"
    by (simp add: demoItems_def comp_def toLowerCase_append toLowerCase_replicate_a
        del: replicate_Suc replicate_add)
  have "inj_on (\<lambda>i. replicate (3 + i) CHR ''a'' @ toLowerCase ''.eth'') (set [0..<45])"
    by (rule inj_onI) (simp add: replicate_eq_replicate del: replicate_Suc replicate_add)
  then show ?thesis
    unfolding eq by (simp add: distinct_map del: replicate_Suc replicate_add)
qed

text \<open>The theorem at 45 sample names, enqueued on a fresh page.\<close>

theorem forty_five_identifiers_two_cycles_witness:
  "length demoItems = 45 \<and> distinct (map (\<lambda>q. toLowerCase (fst q)) demoItems)
   \<and> scoreQueue initState = []
   \<and> scoreQueue (enqueueAll initState demoItems) = demoItems
   \<and> (\<exists>s'. runScoreTimers silentEnv (enqueueAll initState demoItems) = Inr s'
         \<and> dispatched s' = [take 30 demoItems, drop 30 demoItems]
         \<and> scoreQueue s' = [] \<and> \<not> scoreTimeout s')"
proof -
  have l: "length demoItems = 45" by (simp add: demoItems_def)
  have e: "scoreQueue initState = []" "dispatched initState = []" by (simp_all add: initState_def)
  from forty_five_identifiers_two_cycles [OF l demoItems_distinct e(1), of silentEnv]
  show ?thesis using l e demoItems_distinct by auto
qed

section \<open>Failed items of a dispatch cycle\<close>

lemma toLowerChar_idem: "toLowerChar (toLowerChar c) = toLowerChar c"
  by (simp add: toLowerChar_def)

lemma toLowerCase_idem [simp]: "toLowerCase (toLowerCase s) = toLowerCase s"
  by (simp add: toLowerCase_def toLowerChar_idem)

lemma tierNameOf_None [simp]: "tierNameOf None = ''unscored''"
  by (simp add: tierNameOf_def getTierForScore_def)

lemma showTooltip_data [simp]: "identifierData (showTooltip s el d) = identifierData s"
  by (simp add: showTooltip_def)

lemma updateScore_data:
  "identifierData (updateScore s key sc) k =
     (if k = toLowerCase key
      then map_option (\<lambda>d. d\<lparr>score := sc, tier := tierNameOf sc, fetched := True\<rparr>) (identifierData s k)
      else identifierData s k)"
  by (simp add: updateScore_def Let_def split: option.split prod.split)

lemma applyProfile_data_other:
  "k \<noteq> key \<Longrightarrow> identifierData (applyProfile s key u) k = identifierData s k"
  by (simp add: applyProfile_def Let_def split: option.split)

lemma applyProfile_data_dom:
  "(identifierData (applyProfile s key u) k = None) = (identifierData s k = None)"
  by (auto simp: applyProfile_def Let_def split: option.split)

lemma scoreAndProfile_data_other:
  "k \<noteq> toLowerCase x \<Longrightarrow>
     identifierData (snd (scoreAndProfile env s (toLowerCase x) a)) k = identifierData s k"
  by (auto simp: scoreAndProfile_def Let_def updateScore_data applyProfile_data_other
      split: outcome.split option.split)

lemma scoreAndProfile_data_dom:
  "(identifierData (snd (scoreAndProfile env s (toLowerCase x) a)) k = None) =
     (identifierData s k = None)"
  by (auto simp: scoreAndProfile_def Let_def updateScore_data applyProfile_data_dom
      split: outcome.split option.split)

lemma updateScore_None_marks:
  assumes "identifierData s (toLowerCase x) \<noteq> None"
  shows "\<exists>d'. identifierData (updateScore s (toLowerCase x) None) (toLowerCase x) = Some d'
          \<and> markedUnscored d'"
  using assms by (auto simp: updateScore_data markedUnscored_def)

lemma tryScore_data:
  assumes "tryScore env s (toLowerCase x) a = Inr s'"
  shows "k \<noteq> toLowerCase x \<Longrightarrow> identifierData s' k = identifierData s k"
    and "(identifierData s' k = None) = (identifierData s k = None)"
proof -
  obtain e s1 where r: "scoreAndProfile env s (toLowerCase x) a = (e, s1)"
    by (cases "scoreAndProfile env s (toLowerCase x) a")
  from scoreAndProfile_data_other [where k = k and x = x and env = env and s = s and a = a]
    scoreAndProfile_data_dom [where k = k and x = x and env = env and s = s and a = a] r
  have o: "k \<noteq> toLowerCase x \<Longrightarrow> identifierData s1 k = identifierData s k"
    and d: "(identifierData s1 k = None) = (identifierData s k = None)"
    by simp_all
  from assms r have s': "s' = (case e of None \<Rightarrow> s1 | Some ex \<Rightarrow> updateScore s1 (toLowerCase x) None)"
    by (auto simp: tryScore_def split: option.splits)
  show "k \<noteq> toLowerCase x \<Longrightarrow> identifierData s' k = identifierData s k"
    using o by (simp add: s' updateScore_data split: option.split)
  show "(identifierData s' k = None) = (identifierData s k = None)"
    using d by (auto simp: s' updateScore_data split: option.split)
qed

lemma tryScore_throws:
  assumes "tryScore env s (toLowerCase x) a = Inr s'"
    and "getScoreByAddress env a = Throws \<or> getUserByAddress env a = Throws"
    and "identifierData s (toLowerCase x) \<noteq> None"
  shows "\<exists>d'. identifierData s' (toLowerCase x) = Some d' \<and> markedUnscored d'"
proof -
  obtain e s1 where r: "scoreAndProfile env s (toLowerCase x) a = (e, s1)"
    by (cases "scoreAndProfile env s (toLowerCase x) a")
  from assms(2) r have e: "e = Some Exception"
    by (auto simp: scoreAndProfile_def Let_def split: outcome.splits option.splits)
  from scoreAndProfile_data_dom [where k = "toLowerCase x" and x = x and env = env and s = s and a = a]
    r assms(3)
  have "identifierData s1 (toLowerCase x) \<noteq> None" by simp
  moreover from assms(1) r e have "s' = updateScore s1 (toLowerCase x) None"
    by (simp add: tryScore_def)
  ultimately show ?thesis using updateScore_None_marks by simp
qed

lemma processItem_data:
  assumes "processItem env s item = Inr s'"
  shows "k \<noteq> toLowerCase (fst item) \<Longrightarrow> identifierData s' k = identifierData s k"
    and "(identifierData s' k = None) = (identifierData s k = None)"
proof -
  let ?key = "toLowerCase (fst item)"
  let ?s1 = "s\<lparr>calls := calls s @ [ResolveCall (fst item)]\<rparr>"
  let ?s2 = "?s1\<lparr>identifierData := (identifierData ?s1)(?key :=
                map_option (\<lambda>d. d\<lparr>resolvedAddress := Some (the (resolveName env (fst item)))\<rparr>)
                  (identifierData ?s1 ?key))\<rparr>"
  consider (plain) "\<not> (snd item = Ens \<or> snd item = Base)"
    | (failed) "snd item = Ens \<or> snd item = Base" "\<not> truthy (resolveName env (fst item))"
    | (resolved) "snd item = Ens \<or> snd item = Base" "truthy (resolveName env (fst item))"
    by blast
  then have "(k \<noteq> ?key \<longrightarrow> identifierData s' k = identifierData s k)
      \<and> ((identifierData s' k = None) = (identifierData s k = None))"
  proof cases
    case plain
    with assms have "tryScore env s ?key (fst item) = Inr s'"
      by (simp add: processItem_def Let_def)
    from tryScore_data [OF this] show ?thesis by blast
  next
    case failed
    with assms have "s' = updateScore ?s1 ?key None"
      by (simp add: processItem_def Let_def)
    then show ?thesis by (auto simp: updateScore_data)
  next
    case resolved
    with assms have "tryScore env ?s2 ?key (the (resolveName env (fst item))) = Inr s'"
      by (simp add: processItem_def Let_def)
    from tryScore_data [OF this, of k] show ?thesis by auto
  qed
  then show "k \<noteq> toLowerCase (fst item) \<Longrightarrow> identifierData s' k = identifierData s k"
    and "(identifierData s' k = None) = (identifierData s k = None)"
    by blast+
qed

lemma processItem_fail_marks:
  assumes p: "processItem env s item = Inr s'"
    and f: "unresolvable env item \<or> fetchThrows env item"
    and d: "identifierData s (toLowerCase (fst item)) \<noteq> None"
  shows "\<exists>d'. identifierData s' (toLowerCase (fst item)) = Some d' \<and> markedUnscored d'"
proof -
  let ?key = "toLowerCase (fst item)"
  let ?s1 = "s\<lparr>calls := calls s @ [ResolveCall (fst item)]\<rparr>"
  let ?s2 = "?s1\<lparr>identifierData := (identifierData ?s1)(?key :=
                map_option (\<lambda>d. d\<lparr>resolvedAddress := Some (the (resolveName env (fst item)))\<rparr>)
                  (identifierData ?s1 ?key))\<rparr>"
  consider (failed) "unresolvable env item"
    | (plain) "\<not> (snd item = Ens \<or> snd item = Base)" "fetchThrows env item"
    | (resolved) "snd item = Ens \<or> snd item = Base" "truthy (resolveName env (fst item))"
        "fetchThrows env item"
    using f by (auto simp: unresolvable_def fetchThrows_def)
  then show ?thesis
  proof cases
    case failed
    with p have "s' = updateScore ?s1 ?key None"
      by (simp add: processItem_def Let_def unresolvable_def)
    moreover have "identifierData ?s1 ?key \<noteq> None" using d by simp
    ultimately show ?thesis using updateScore_None_marks [of ?s1 "fst item"] by simp
  next
    case plain
    with p have t: "tryScore env s ?key (fst item) = Inr s'"
      by (simp add: processItem_def Let_def)
    from plain have "getScoreByAddress env (fst item) = Throws \<or> getUserByAddress env (fst item) = Throws"
      by (simp add: fetchThrows_def addressToScore_def)
    from tryScore_throws [OF t this d] show ?thesis .
  next
    case resolved
    with p have t: "tryScore env ?s2 ?key (the (resolveName env (fst item))) = Inr s'"
      by (simp add: processItem_def Let_def)
    from resolved have th: "getScoreByAddress env (the (resolveName env (fst item))) = Throws
        \<or> getUserByAddress env (the (resolveName env (fst item))) = Throws"
      by (simp add: fetchThrows_def addressToScore_def)
    have "identifierData ?s2 ?key \<noteq> None" using d by simp
    from tryScore_throws [OF t th this] show ?thesis .
  qed
qed

lemma runBatch_data:
  assumes "runBatch env s batch = Inr s'"
  shows "k \<notin> set (map (\<lambda>q. toLowerCase (fst q)) batch) \<Longrightarrow> identifierData s' k = identifierData s k"
    and "(identifierData s' k = None) = (identifierData s k = None)"
  using assms
proof (induction batch arbitrary: s)
  case Nil
  { case 1 then show ?case by simp }
  { case 2 then show ?case by simp }
next
  case (Cons item rest)
  { case 1
    then obtain s1 where s1: "processItem env s item = Inr s1" "runBatch env s1 rest = Inr s'"
      by (auto split: sum.splits)
    from 1 have "k \<noteq> toLowerCase (fst item)" "k \<notin> set (map (\<lambda>q. toLowerCase (fst q)) rest)"
      by auto
    with Cons.IH(1) [OF _ s1(2)] processItem_data(1) [OF s1(1)] show ?case by simp }
  { case 2
    then obtain s1 where s1: "processItem env s item = Inr s1" "runBatch env s1 rest = Inr s'"
      by (auto split: sum.splits)
    with Cons.IH(2) [OF s1(2)] processItem_data(2) [OF s1(1), of k] show ?case by simp }
qed

lemma runBatch_marks:
  assumes "runBatch env s batch = Inr s'"
    and "distinct (map (\<lambda>q. toLowerCase (fst q)) batch)"
    and "item \<in> set batch"
    and "unresolvable env item \<or> fetchThrows env item"
    and "identifierData s (toLowerCase (fst item)) \<noteq> None"
  shows "\<exists>d'. identifierData s' (toLowerCase (fst item)) = Some d' \<and> markedUnscored d'"
  using assms
proof (induction batch arbitrary: s)
  case Nil
  then show ?case by simp
next
  case (Cons x rest)
  from Cons.prems(1) obtain s1 where s1: "processItem env s x = Inr s1" "runBatch env s1 rest = Inr s'"
    by (auto split: sum.splits)
  show ?case
  proof (cases "item = x")
    case True
    from processItem_fail_marks [OF s1(1)] Cons.prems(4,5) True
    obtain d' where d': "identifierData s1 (toLowerCase (fst item)) = Some d'" "markedUnscored d'"
      by blast
    from Cons.prems(2) True have "toLowerCase (fst item) \<notin> set (map (\<lambda>q. toLowerCase (fst q)) rest)"
      by simp
    from runBatch_data(1) [OF s1(2) this] d' show ?thesis by simp
  next
    case False
    with Cons.prems(3) have i: "item \<in> set rest" by simp
    from processItem_data(2) [OF s1(1), of "toLowerCase (fst item)"] Cons.prems(5)
    have "identifierData s1 (toLowerCase (fst item)) \<noteq> None" by simp
    from Cons.IH [OF s1(2) _ i Cons.prems(4) this] Cons.prems(2) show ?thesis by simp
  qed
qed

lemma processScoreQueue_total: "\<exists>s'. processScoreQueue env s = Inr s'"
proof (cases "scoreQueue s = []")
  case True
  then show ?thesis by (simp add: processScoreQueue_def)
next
  case False
  from processScoreQueue_cycle [OF this] show ?thesis by blast
qed

lemma unresolvable_calls: "unresolvable env item \<Longrightarrow> itemCalls env item = [ResolveCall (fst item)]"
  by (simp add: unresolvable_def itemCalls_def)

lemma processItem_unresolvable:
  "unresolvable env item \<Longrightarrow>
     processItem env st item =
       Inr (updateScore (st\<lparr>calls := calls st @ [ResolveCall (fst item)]\<rparr>)
              (toLowerCase (fst item)) None)"
  by (simp add: unresolvable_def processItem_def Let_def)

lemma processScoreQueue_marks:
  assumes dist: "distinct (map (\<lambda>q. toLowerCase (fst q)) (scoreQueue s))"
    and mem: "item \<in> set (take 30 (scoreQueue s))"
    and fail: "unresolvable env item \<or> fetchThrows env item"
    and p: "processScoreQueue env s = Inr s'"
    and d: "identifierData s (toLowerCase (fst item)) \<noteq> None"
  shows "\<exists>d'. identifierData s' (toLowerCase (fst item)) = Some d' \<and> markedUnscored d'"
proof -
  let ?batch = "take 30 (scoreQueue s)"
  let ?s1 = "s\<lparr>scoreQueue := drop 30 (scoreQueue s), dispatched := dispatched s @ [?batch]\<rparr>"
  from mem have ne: "scoreQueue s \<noteq> []" by auto
  obtain s2 where s2: "runBatch env ?s1 ?batch = Inr s2"
    using runBatch_total by blast
  from p ne s2 have s': "identifierData s' = identifierData s2"
    by (auto simp: processScoreQueue_def Let_def split: if_splits)
  have "distinct (map (\<lambda>q. toLowerCase (fst q)) ?batch)"
    using dist by (simp add: take_map [symmetric] distinct_take)
  from runBatch_marks [OF s2 this mem fail] d show ?thesis by (simp add: s')
qed

text \<open>
  Claim C5. In a dispatch cycle over a queue whose identifiers differ up to case (as
  \<open>queueForScoring\<close> keeps it), take an item of the batch that is a name the resolver
  returns nothing for, or an item for which a fetch inside the \<open>try\<close> block throws. The
  cycle returns normally; if the item has a record, the record ends with
  \<open>fetched = true\<close>, score \<open>null\<close> and tier \<open>unscored\<close>; the calls of every item of the
  batch are made, so the items behind the failed one are processed; and for an
  unresolvable name the only call is the resolver's, the iteration being exactly
  \<open>updateScore(key, null)\<close>. No state makes \<open>processScoreQueue\<close> throw.
\<close>

theorem failed_items_are_terminal:
  assumes "distinct (map (\<lambda>q. toLowerCase (fst q)) (scoreQueue s))"
    and "item \<in> set (take 30 (scoreQueue s))"
    and "unresolvable env item \<or> fetchThrows env item"
  shows "\<exists>s'. processScoreQueue env s = Inr s'
      \<and> (identifierData s (toLowerCase (fst item)) \<noteq> None \<longrightarrow>
           (\<exists>d'. identifierData s' (toLowerCase (fst item)) = Some d' \<and> fetched d'
                 \<and> score d' = None \<and> tier d' = ''unscored''))
      \<and> calls s' = calls s @ concat (map (itemCalls env) (take 30 (scoreQueue s)))
      \<and> (unresolvable env item \<longrightarrow>
            itemCalls env item = [ResolveCall (fst item)]
          \<and> (\<forall>st. processItem env st item =
                 Inr (updateScore (st\<lparr>calls := calls st @ [ResolveCall (fst item)]\<rparr>)
                        (toLowerCase (fst item)) None)))
      \<and> (\<forall>st. \<exists>st'. processScoreQueue env st = Inr st')"
proof -
  from assms(2) have ne: "scoreQueue s \<noteq> []" by auto
  from processScoreQueue_cycle [OF ne, of env] obtain s' where
    s': "processScoreQueue env s = Inr s'"
    "calls s' = calls s @ concat (map (itemCalls env) (take 30 (scoreQueue s)))"
    by blast
  have m: "identifierData s (toLowerCase (fst item)) \<noteq> None \<Longrightarrow>
      \<exists>d'. identifierData s' (toLowerCase (fst item)) = Some d' \<and> fetched d'
                 \<and> score d' = None \<and> tier d' = ''unscored''"
    using processScoreQueue_marks [OF assms s'(1)] by (simp add: markedUnscored_def)
  show ?thesis
    using s' m unresolvable_calls [of env item] processItem_unresolvable [of env item]
      processScoreQueue_total [of env]
    by (intro exI [of _ s']) simp
qed

lemma lower_ghost: "toLowerCase ''ghost.eth'' = ''ghost.eth''"
  by (simp add: toLowerCase_def toLowerChar_def)

lemma lower_address:
  "toLowerCase ''0xd8dA6BF26964aF9D7eEd9e03E53415D37aA96045'' =
     ''0xd8da6bf26964af9d7eed9e03e53415d37aa96045''"
  by code_simp

text \<open>The theorem at a queue that starts with a name nobody resolves.\<close>

theorem failed_items_are_terminal_witness:
  "distinct (map (\<lambda>q. toLowerCase (fst q)) (scoreQueue ghostState))
   \<and> (''ghost.eth'', Ens) \<in> set (take 30 (scoreQueue ghostState))
   \<and> unresolvable silentEnv (''ghost.eth'', Ens)
   \<and> identifierData ghostState ''ghost.eth'' \<noteq> None
   \<and> (\<exists>s'. processScoreQueue silentEnv ghostState = Inr s'
         \<and> (\<exists>d'. identifierData s' ''ghost.eth'' = Some d' \<and> fetched d'
               \<and> score d' = None \<and> tier d' = ''unscored''))"
proof -
  have q: "scoreQueue ghostState =
      [(''ghost.eth'', Ens), (''0xd8dA6BF26964aF9D7eEd9e03E53415D37aA96045'', Eth)]"
    by (simp add: ghostState_def initState_def)
  have a: "distinct (map (\<lambda>q. toLowerCase (fst q)) (scoreQueue ghostState))"
    by (simp add: q lower_ghost lower_address)
  have b: "(''ghost.eth'', Ens) \<in> set (take 30 (scoreQueue ghostState))"
    by (simp add: q)
  have c: "unresolvable silentEnv (''ghost.eth'', Ens)"
    by (simp add: unresolvable_def silentEnv_def truthy_def)
  have d: "identifierData ghostState ''ghost.eth'' \<noteq> None"
    by (simp add: ghostState_def initState_def)
  from failed_items_are_terminal [OF a b disjI1 [OF c]] d
  show ?thesis using a b c by (auto simp: lower_ghost)
qed

section \<open>Housekeeping of the marker registry\<close>

lemma bodyContains_cong: "body a = body b \<Longrightarrow> bodyContains a = bodyContains b"
  by (simp add: bodyContains_def fun_eq_iff)

lemma filter_same_length: "length (filter P xs) = length xs \<Longrightarrow> filter P xs = xs"
  by (metis filter_id_conv length_filter_less less_irrefl)

lemma filter_notkey: "k \<notin> fst ` set xs \<Longrightarrow> filter (\<lambda>(k', els). k' \<noteq> k) xs = xs"
  by (induction xs) auto

lemma map_notkey:
  "k \<notin> fst ` set xs \<Longrightarrow> map (\<lambda>(k', old). if k' = k then (k', v') else (k', old)) xs = xs"
  by (induction xs) auto

lemma regDelete_mid:
  "k \<notin> fst ` set pre \<Longrightarrow> k \<notin> fst ` set es \<Longrightarrow> regDelete (pre @ (k, v) # es) k = pre @ es"
  by (simp add: regDelete_def filter_notkey)

lemma regSet_mid:
  "k \<notin> fst ` set pre \<Longrightarrow> k \<notin> fst ` set es \<Longrightarrow>
     regSet (pre @ (k, v) # es) k v' = pre @ (k, v') # es"
  by (simp add: regSet_def map_notkey)

lemma cleanupEntry_body [simp]: "body (cleanupEntry st e) = body st"
  by (simp add: cleanupEntry_def forgetIdentifier_def Let_def)

lemma cleanupEntry_step:
  assumes "k \<notin> fst ` set pre" and "k \<notin> fst ` set es" and "targetElements st = pre @ (k, v) # es"
  shows "targetElements (cleanupEntry st (k, v)) =
           pre @ filter (\<lambda>e. snd e \<noteq> []) [(k, filter (bodyContains st) v)] @ es"
    and "identifierData (cleanupEntry st (k, v)) =
           (if filter (bodyContains st) v = [] then (identifierData st)(k := None)
            else identifierData st)"
proof -
  let ?conn = "filter (bodyContains st) v"
  show "targetElements (cleanupEntry st (k, v)) =
           pre @ filter (\<lambda>e. snd e \<noteq> []) [(k, ?conn)] @ es"
  proof (cases "?conn = []")
    case True
    then show ?thesis
      using assms by (simp add: cleanupEntry_def forgetIdentifier_def regDelete_mid)
  next
    case False
    show ?thesis
    proof (cases "length ?conn = length v")
      case True
      then have "?conn = v" by (rule filter_same_length)
      with False True show ?thesis using assms by (simp add: cleanupEntry_def)
    next
      case ne: False
      with False show ?thesis using assms by (simp add: cleanupEntry_def regSet_mid)
    qed
  qed
  show "identifierData (cleanupEntry st (k, v)) =
           (if ?conn = [] then (identifierData st)(k := None) else identifierData st)"
    by (simp add: cleanupEntry_def forgetIdentifier_def Let_def)
qed

lemma cleanup_fold:
  assumes "distinct (map fst (pre @ es))" and "targetElements st = pre @ es"
  shows "targetElements (fold (\<lambda>entry st. cleanupEntry st entry) es st) =
           pre @ filter (\<lambda>e. snd e \<noteq> []) (map (\<lambda>e. (fst e, filter (bodyContains st) (snd e))) es)
       \<and> (\<forall>k. identifierData (fold (\<lambda>entry st. cleanupEntry st entry) es st) k =
             (if \<exists>e \<in> set es. fst e = k \<and> filter (bodyContains st) (snd e) = [] then None
              else identifierData st k))
       \<and> body (fold (\<lambda>entry st. cleanupEntry st entry) es st) = body st"
  using assms
proof (induction es arbitrary: pre st)
  case Nil
  then show ?case by simp
next
  case (Cons e es)
  obtain k v where e: "e = (k, v)" by (cases e)
  let ?conn = "filter (bodyContains st) v"
  let ?st1 = "cleanupEntry st (k, v)"
  let ?pre1 = "pre @ filter (\<lambda>e. snd e \<noteq> []) [(k, ?conn)]"
  from Cons.prems(1) have nk: "k \<notin> fst ` set pre" "k \<notin> fst ` set es"
    by (auto simp: e)
  from Cons.prems(2) have t: "targetElements st = pre @ (k, v) # es" by (simp add: e)
  note step = cleanupEntry_step [OF nk t]
  have bc: "bodyContains ?st1 = bodyContains st"
    by (rule bodyContains_cong) simp
  have d1: "distinct (map fst (?pre1 @ es))"
    using Cons.prems(1) by (auto simp: e)
  have t1: "targetElements ?st1 = ?pre1 @ es"
    using step(1) by simp
  from Cons.IH [OF d1 t1] have ih:
    "targetElements (fold (\<lambda>entry st. cleanupEntry st entry) es ?st1) =
       ?pre1 @ filter (\<lambda>e. snd e \<noteq> []) (map (\<lambda>e. (fst e, filter (bodyContains st) (snd e))) es)"
    "\<And>k'. identifierData (fold (\<lambda>entry st. cleanupEntry st entry) es ?st1) k' =
       (if \<exists>e \<in> set es. fst e = k' \<and> filter (bodyContains st) (snd e) = [] then None
        else identifierData ?st1 k')"
    "body (fold (\<lambda>entry st. cleanupEntry st entry) es ?st1) = body st"
    by (simp_all add: bc)
  show ?case
  proof (intro conjI allI)
    show "targetElements (fold (\<lambda>entry st. cleanupEntry st entry) (e # es) st) =
        pre @ filter (\<lambda>e. snd e \<noteq> [])
                (map (\<lambda>e. (fst e, filter (bodyContains st) (snd e))) (e # es))"
      using ih(1) by (simp add: e)
    show "body (fold (\<lambda>entry st. cleanupEntry st entry) (e # es) st) = body st"
      using ih(3) by (simp add: e)
    fix k'
    show "identifierData (fold (\<lambda>entry st. cleanupEntry st entry) (e # es) st) k' =
        (if \<exists>e \<in> set (e # es). fst e = k' \<and> filter (bodyContains st) (snd e) = [] then None
         else identifierData st k')"
      using ih(2) [of k'] step(2) by (auto simp: e)
  qed
qed

lemma limit_fold:
  "targetElements (fold (\<lambda>key st. forgetIdentifier st key) ks st) =
     filter (\<lambda>e. fst e \<notin> set ks) (targetElements st)
   \<and> (\<forall>k. identifierData (fold (\<lambda>key st. forgetIdentifier st key) ks st) k =
         (if k \<in> set ks then None else identifierData st k))
   \<and> body (fold (\<lambda>key st. forgetIdentifier st key) ks st) = body st"
proof (induction ks arbitrary: st)
  case Nil
  show ?case by simp
next
  case (Cons a ks)
  have t: "targetElements (forgetIdentifier st a) = filter (\<lambda>e. fst e \<noteq> a) (targetElements st)"
    and d: "identifierData (forgetIdentifier st a) = (identifierData st)(a := None)"
    and b: "body (forgetIdentifier st a) = body st"
    by (simp_all add: forgetIdentifier_def regDelete_def case_prod_unfold)
  have f: "fold (\<lambda>key st. forgetIdentifier st key) (a # ks) st =
      fold (\<lambda>key st. forgetIdentifier st key) ks (forgetIdentifier st a)"
    by simp
  show ?case
    unfolding f using Cons.IH [of "forgetIdentifier st a"]
    by (auto simp: t d b intro: filter_cong)
qed

lemma drop_keys:
  "distinct (map fst r) \<Longrightarrow> filter (\<lambda>e. fst e \<notin> set (take m (map fst r))) r = drop m r"
proof (induction r arbitrary: m)
  case Nil
  show ?case by simp
next
  case (Cons x xs)
  show ?case
  proof (cases m)
    case 0
    then show ?thesis by simp
  next
    case (Suc m')
    from Cons.prems have nx: "fst x \<notin> fst ` set xs" and dx: "distinct (map fst xs)" by auto
    from nx have "\<forall>e \<in> set xs. fst e \<noteq> fst x" by (metis imageI)
    then have "filter (\<lambda>e. fst e \<noteq> fst x \<and> fst e \<notin> set (take m' (map fst xs))) xs =
            filter (\<lambda>e. fst e \<notin> set (take m' (map fst xs))) xs"
      by (intro filter_cong) auto
    with Cons.IH [OF dx, of m'] show ?thesis by (simp add: Suc)
  qed
qed

lemma connectedEntries_keys:
  assumes "distinct (map fst (targetElements s))"
  shows "distinct (map fst (connectedEntries s))"
proof -
  have "map fst (map (\<lambda>e. (fst e, filter (bodyContains s) (snd e))) (targetElements s)) =
      map fst (targetElements s)"
    by (simp add: comp_def)
  with assms have "distinct (map fst (map (\<lambda>e. (fst e, filter (bodyContains s) (snd e))) (targetElements s)))"
    by (simp only:)
  then show ?thesis
    unfolding connectedEntries_def by (rule distinct_map_filter)
qed

lemma connectedEntries_mem:
  "e \<in> set (connectedEntries s) \<Longrightarrow>
     snd e \<noteq> [] \<and> (\<exists>e' \<in> set (targetElements s). fst e' = fst e
        \<and> snd e = filter (bodyContains s) (snd e'))"
  by (force simp: connectedEntries_def)

lemma housekeeping_shape:
  assumes d: "distinct (map fst (targetElements s))"
  shows "targetElements (housekeeping s) =
           drop (length (connectedEntries s) - 500) (connectedEntries s)"
    and "\<And>k. identifierData (housekeeping s) k =
           (if k \<in> set (take (length (connectedEntries s) - 500) (map fst (connectedEntries s)))
               \<or> (\<exists>e \<in> set (targetElements s). fst e = k \<and> filter (bodyContains s) (snd e) = [])
            then None else identifierData s k)"
    and "body (housekeeping s) = body s"
proof -
  let ?s0 = "s\<lparr>pendingNodes := [], observerTimeout := False\<rparr>"
  let ?c1 = "cleanupDisconnected ?s0"
  let ?ce = "connectedEntries s"
  let ?m = "length ?ce - 500"
  have bc0: "bodyContains ?s0 = bodyContains s"
    by (rule bodyContains_cong) simp
  from cleanup_fold [of "[]" "targetElements ?s0" ?s0] d
  have t1: "targetElements ?c1 = ?ce"
    and d1: "\<And>k. identifierData ?c1 k =
        (if \<exists>e \<in> set (targetElements s). fst e = k \<and> filter (bodyContains s) (snd e) = []
         then None else identifierData s k)"
    and b1: "body ?c1 = body s"
    by (auto simp: cleanupDisconnected_def connectedEntries_def bc0)
  have dce: "distinct (map fst ?ce)" by (rule connectedEntries_keys [OF d])
  let ?ks = "take ?m (map fst ?ce)"
  have h: "housekeeping s = fold (\<lambda>key st. forgetIdentifier st key) ?ks ?c1"
  proof (cases "500 < length ?ce")
    case True
    then show ?thesis by (simp add: housekeeping_def limitRegistry_def t1 Let_def)
  next
    case False
    then show ?thesis by (simp add: housekeeping_def limitRegistry_def t1)
  qed
  from limit_fold [of ?ks ?c1]
  have th: "targetElements (housekeeping s) = filter (\<lambda>e. fst e \<notin> set ?ks) ?ce"
    and dh: "\<And>k. identifierData (housekeeping s) k =
        (if k \<in> set ?ks then None else identifierData ?c1 k)"
    and bh: "body (housekeeping s) = body ?c1"
    by (simp_all add: h t1)
  show "targetElements (housekeeping s) = drop ?m ?ce"
    using th drop_keys [OF dce, of ?m] by simp
  show "body (housekeeping s) = body s" using bh b1 by simp
  fix k
  show "identifierData (housekeeping s) k =
      (if k \<in> set ?ks \<or> (\<exists>e \<in> set (targetElements s). fst e = k \<and> filter (bodyContains s) (snd e) = [])
       then None else identifierData s k)"
    using dh [of k] d1 [of k] by auto
qed

subsection \<open>The state right after the housekeeping\<close>

lemma housekeeping_registry:
  assumes "distinct (map fst (targetElements s))"
  shows "targetElements (housekeeping s) =
           drop (length (connectedEntries s) - 500) (connectedEntries s)
    \<and> length (targetElements (housekeeping s)) \<le> 500
    \<and> registryAttached (housekeeping s)
    \<and> (\<forall>e \<in> set (targetElements (housekeeping s)). snd e \<noteq> [])
    \<and> (\<forall>e \<in> set (targetElements s). filter (bodyContains s) (snd e) = [] \<longrightarrow>
          fst e \<notin> fst ` set (targetElements (housekeeping s))
          \<and> identifierData (housekeeping s) (fst e) = None)
    \<and> (\<forall>k \<in> set (take (length (connectedEntries s) - 500) (map fst (connectedEntries s))).
          k \<notin> fst ` set (targetElements (housekeeping s))
          \<and> identifierData (housekeeping s) k = None)
    \<and> (\<forall>k \<in> fst ` set (targetElements (housekeeping s)).
          identifierData (housekeeping s) k = identifierData s k)
    \<and> (pendingNodes s = [] \<longrightarrow> processPendingNodes s = housekeeping s)"
proof -
  let ?ce = "connectedEntries s"
  let ?m = "length ?ce - 500"
  let ?h = "housekeeping s"
  note sh = housekeeping_shape [OF assms]
  have dce: "distinct (map fst ?ce)" by (rule connectedEntries_keys [OF assms])
  have sub: "set (targetElements ?h) \<subseteq> set ?ce"
    using set_drop_subset [of ?m ?ce] by (simp add: sh(1))
  have bc: "bodyContains ?h = bodyContains s"
    by (rule bodyContains_cong) (rule sh(3))
  have "fst ` set (drop ?m ?ce) = set (drop ?m (map fst ?ce))"
    by (simp add: drop_map)
  then have disj: "set (take ?m (map fst ?ce)) \<inter> fst ` set (targetElements ?h) = {}"
    using set_take_disj_set_drop_if_distinct [OF dce, of ?m ?m]
    by (simp only: sh(1))
  have gone: "fst e \<notin> fst ` set ?ce"
    if e: "e \<in> set (targetElements s)" and f: "filter (bodyContains s) (snd e) = []" for e
  proof
    assume "fst e \<in> fst ` set ?ce"
    then obtain c where c: "c \<in> set ?ce" "fst c = fst e" by auto
    from connectedEntries_mem [OF c(1)] obtain e' where e': "e' \<in> set (targetElements s)"
      "fst e' = fst c" "snd c = filter (bodyContains s) (snd e')" "snd c \<noteq> []"
      by blast
    from keys_inj [OF assms e' (1) e] e'(2) c(2) have "e' = e" by simp
    with e'(3,4) f show False by simp
  qed
  have kept: "\<not> (\<exists>e \<in> set (targetElements s). fst e = k \<and> filter (bodyContains s) (snd e) = [])"
    if "k \<in> fst ` set ?ce" for k
    using that gone by blast
  show ?thesis
  proof (intro conjI ballI impI)
    show "targetElements ?h = drop ?m ?ce" by (rule sh(1))
    show "length (targetElements ?h) \<le> 500" by (simp add: sh(1))
    show "registryAttached ?h"
      unfolding registryAttached_def list_all_iff bc
    proof (intro ballI)
      fix e el
      assume "e \<in> set (targetElements ?h)" and el: "el \<in> set (snd e)"
      with sub have "e \<in> set ?ce" by blast
      from connectedEntries_mem [OF this] el show "bodyContains s el" by auto
    qed
  next
    fix e
    assume "e \<in> set (targetElements ?h)"
    with sub have "e \<in> set ?ce" by blast
    from connectedEntries_mem [OF this] show "snd e \<noteq> []" by blast
  next
    fix e
    assume e: "e \<in> set (targetElements s)" and f: "filter (bodyContains s) (snd e) = []"
    from gone [OF e f] sub show "fst e \<notin> fst ` set (targetElements ?h)" by blast
    from e f show "identifierData ?h (fst e) = None"
      by (auto simp: sh(2))
  next
    fix k
    assume k: "k \<in> set (take ?m (map fst ?ce))"
    with disj show "k \<notin> fst ` set (targetElements ?h)" by blast
    from k show "identifierData ?h k = None" by (simp add: sh(2))
  next
    fix k
    assume k: "k \<in> fst ` set (targetElements ?h)"
    with disj have n: "k \<notin> set (take ?m (map fst ?ce))" by blast
    from k sub have "k \<in> fst ` set ?ce" by blast
    from kept [OF this] n show "identifierData ?h k = identifierData s k"
      by (auto simp: sh(2))
  next
    assume "pendingNodes s = []"
    then show "processPendingNodes s = ?h" by (simp add: processPendingNodes_def)
  qed
qed

subsection \<open>Node identities under \<open>replaceChild\<close>\<close>

lemma wellFormedNodes_iff:
  "wellFormedNodes n ts =
     ((\<forall>t \<in> set ts. \<forall>i \<in> set (elementIds t) \<union> set (textIds t). i < n)
      \<and> (\<forall>t \<in> set ts. \<forall>u \<in> set ts. \<forall>i \<in> set (elementIds t). i \<notin> set (textIds u)))"
  by (auto simp: wellFormedNodes_def list_all_iff)

lemma nodesOf_ids: "nodeId ` snd ` set (nodesOf p t) = set (elementIds t) \<union> set (textIds t)"
proof (induction t arbitrary: p)
  case (TextNode i x)
  show ?case by simp
next
  case (Element i tag ce kids)
  have "nodeId ` snd ` (\<Union>k \<in> set kids. set (nodesOf (Some (i, tag, ce)) k)) =
        (\<Union>k \<in> set kids. set (elementIds k) \<union> set (textIds k))"
    using Element.IH by (simp add: image_UN)
  then show ?case by (auto simp: image_Un)
qed

lemma bodyContains_ids:
  "bodyContains s el = (el \<in> set (elementIds (body s)) \<union> set (textIds (body s)))"
proof -
  have "bodyContains s el = (el \<in> nodeId ` snd ` set (nodesOf None (body s)))"
    by (auto simp: bodyContains_def list_ex_iff)
  then show ?thesis by (simp only: nodesOf_ids)
qed

lemma nodesOf_text: "(q, TextNode i x) \<in> set (nodesOf p t) \<Longrightarrow> i \<in> set (textIds t)"
  by (induction t arbitrary: p) auto

lemma lookupNode_text:
  assumes "lookupNode s node = Some (parent, TextNode i x)"
  shows "i = node" and "\<exists>t \<in> set (body s # detached s). node \<in> set (textIds t)"
proof -
  from assms obtain j where j: "j < length (allNodes s)" "nodeId (snd (allNodes s ! j)) = node"
      "allNodes s ! j = (parent, TextNode i x)"
    unfolding lookupNode_def find_Some_iff by metis
  from j(2,3) show i: "i = node" by simp
  from j(1,3) have m: "(parent, TextNode i x) \<in> set (allNodes s)"
    by (metis nth_mem)
  from m have "(parent, TextNode i x) \<in> set (nodesOf None (body s))
      \<or> (\<exists>t \<in> set (detached s). (parent, TextNode i x) \<in> set (nodesOf None t))"
    by (auto simp: allNodes_def)
  then show "\<exists>t \<in> set (body s # detached s). node \<in> set (textIds t)"
    unfolding i by (auto dest: nodesOf_text)
qed

lemma nodeId_element: "set (elementIds k) \<noteq> {} \<Longrightarrow> nodeId k \<in> set (elementIds k)"
  by (cases k) auto

lemma replaceChild_keeps:
  "old \<notin> set (elementIds t) \<Longrightarrow> set (elementIds t) \<subseteq> set (elementIds (replaceChild old new t))"
proof (induction t)
  case (TextNode i x)
  show ?case by simp
next
  case (Element i tag ce kids)
  show ?case
  proof
    fix x
    assume "x \<in> set (elementIds (Element i tag ce kids))"
    then consider "x = i" | k where "k \<in> set kids" "x \<in> set (elementIds k)"
      by auto
    then show "x \<in> set (elementIds (replaceChild old new (Element i tag ce kids)))"
    proof cases
      case 1
      then show ?thesis by simp
    next
      case (2 k)
      from 2(2) have "nodeId k \<in> set (elementIds k)" by (intro nodeId_element) auto
      with 2(1) Element.prems have ne: "nodeId k \<noteq> old" by auto
      from 2(1) Element.prems have "old \<notin> set (elementIds k)" by auto
      from Element.IH [OF 2(1) this] 2(2)
      have "x \<in> set (elementIds (replaceChild old new k))" by blast
      with 2(1) ne show ?thesis by auto
    qed
  qed
qed

lemma replaceChild_elements:
  "set (elementIds (replaceChild old new t)) \<subseteq>
     set (elementIds t) \<union> (\<Union>f \<in> set new. set (elementIds f))"
proof (induction t)
  case (TextNode i x)
  show ?case by simp
next
  case (Element i tag ce kids)
  then show ?case by (auto split: if_splits)
qed

lemma replaceChild_texts:
  "set (textIds (replaceChild old new t)) \<subseteq>
     set (textIds t) \<union> (\<Union>f \<in> set new. set (textIds f))"
proof (induction t)
  case (TextNode i x)
  show ?case by simp
next
  case (Element i tag ce kids)
  then show ?case by (auto split: if_splits)
qed

lemma map_of_push:
  "map_of (map (\<lambda>(k', els). if k' = k then (k', els @ [el]) else (k', els)) r) k' =
     (if k' = k then map_option (\<lambda>els. els @ [el]) (map_of r k) else map_of r k')"
  by (induction r) auto

lemma regGet_regPush:
  "regGet (regPush r k el) k' = (if k' = k then regGet r k @ [el] else regGet r k')"
proof (cases "k \<in> fst ` set r")
  case True
  then obtain v where "map_of r k = Some v"
    by (metis map_of_eq_None_iff not_Some_eq)
  with True show ?thesis
    by (simp add: regGet_def regPush_def map_of_push)
next
  case False
  then have "map_of r k = None" by (simp add: map_of_eq_None_iff)
  with False show ?thesis
    by (auto simp: regGet_def regPush_def map_add_def split: option.splits)
qed

lemma annotates_refl: "annotates s s"
  by (simp add: annotates_def)

lemma annotates_trans:
  assumes "annotates a b" and "annotates b c"
  shows "annotates a c"
proof -
  have r: "\<exists>news. regGet (targetElements c) k = regGet (targetElements a) k @ news
        \<and> (\<forall>n \<in> set news. nextId a \<le> n)" for k
  proof -
    from assms(1) obtain n1 where n1: "regGet (targetElements b) k = regGet (targetElements a) k @ n1"
      "\<forall>n \<in> set n1. nextId a \<le> n"
      unfolding annotates_def by blast
    from assms(2) obtain n2 where n2: "regGet (targetElements c) k = regGet (targetElements b) k @ n2"
      "\<forall>n \<in> set n2. nextId b \<le> n"
      unfolding annotates_def by blast
    from assms(1) have "nextId a \<le> nextId b" by (simp add: annotates_def)
    with n1 n2 have "regGet (targetElements c) k = regGet (targetElements a) k @ (n1 @ n2)"
      "\<forall>n \<in> set (n1 @ n2). nextId a \<le> n"
      by auto
    then show ?thesis by blast
  qed
  have d: "identifierData c k = identifierData a k \<or> regGet (targetElements c) k \<noteq> []" for k
  proof -
    from assms(2) obtain n2 where n2: "regGet (targetElements c) k = regGet (targetElements b) k @ n2"
      unfolding annotates_def by blast
    from assms have "identifierData c k = identifierData b k \<or> regGet (targetElements c) k \<noteq> []"
      "identifierData b k = identifierData a k \<or> regGet (targetElements b) k \<noteq> []"
      by (simp_all add: annotates_def)
    with n2 show ?thesis by auto
  qed
  from assms have "nextId a \<le> nextId c" "set (elementIds (body a)) \<subseteq> set (elementIds (body c))"
    by (auto simp: annotates_def)
  with r d show ?thesis unfolding annotates_def by blast
qed

lemma wfn_bound:
  "wellFormedNodes n ts \<Longrightarrow> u \<in> set ts \<Longrightarrow> j \<in> set (elementIds u) \<union> set (textIds u) \<Longrightarrow> j < n"
  unfolding wellFormedNodes_iff by blast

lemma wfn_cons:
  "wellFormedNodes n (t # ts) =
     ((\<forall>i \<in> set (elementIds t) \<union> set (textIds t). i < n)
      \<and> (\<forall>i \<in> set (elementIds t). i \<notin> set (textIds t))
      \<and> (\<forall>u \<in> set ts. (\<forall>i \<in> set (elementIds t). i \<notin> set (textIds u))
                         \<and> (\<forall>i \<in> set (elementIds u). i \<notin> set (textIds t)))
      \<and> wellFormedNodes n ts)"
  unfolding wellFormedNodes_iff by (simp add: ball_Un) blast

lemma wfn_mono:
  assumes "wellFormedNodes n ts" and "n \<le> n'"
  shows "wellFormedNodes n' ts"
proof -
  have "j < n'" if "u \<in> set ts" "j \<in> set (elementIds u) \<union> set (textIds u)" for u j
    using wfn_bound [OF assms(1) that] assms(2) by simp
  with assms(1) show ?thesis unfolding wellFormedNodes_iff by blast
qed

lemma wfn_text:
  assumes "wellFormedNodes n ts" and "n \<le> i"
  shows "wellFormedNodes (Suc i) (TextNode i x # ts)"
proof -
  have "j \<noteq> i" if "u \<in> set ts" "j \<in> set (elementIds u)" for u j
    using wfn_bound [OF assms(1) that(1), of j] that(2) assms(2) by auto
  moreover have "wellFormedNodes (Suc i) ts"
    using assms by (intro wfn_mono [OF assms(1)]) simp
  ultimately show ?thesis
    unfolding wfn_cons by auto
qed

lemma wfn_span:
  assumes "wellFormedNodes n ts" and "n \<le> i"
  shows "wellFormedNodes (i + 2) (Element i tag ce [TextNode (Suc i) x] # ts)"
proof -
  have "j \<noteq> i \<and> j \<noteq> Suc i" if "u \<in> set ts" "j \<in> set (elementIds u) \<union> set (textIds u)" for u j
    using wfn_bound [OF assms(1) that] assms(2) by auto
  moreover have "wellFormedNodes (i + 2) ts"
    using assms by (intro wfn_mono [OF assms(1)]) simp
  ultimately show ?thesis
    unfolding wfn_cons by auto
qed

lemma wfn_replace:
  assumes "wellFormedNodes n (new @ ts)"
  shows "wellFormedNodes n (map (replaceChild old new) ts)"
proof -
  have e: "i \<in> set (elementIds (replaceChild old new t)) \<Longrightarrow> t \<in> set ts \<Longrightarrow>
      \<exists>u \<in> set (new @ ts). i \<in> set (elementIds u)" for i t
    using replaceChild_elements [of old new t] by auto
  have x: "i \<in> set (textIds (replaceChild old new t)) \<Longrightarrow> t \<in> set ts \<Longrightarrow>
      \<exists>u \<in> set (new @ ts). i \<in> set (textIds u)" for i t
    using replaceChild_texts [of old new t] by auto
  from assms have b: "\<And>u i. u \<in> set (new @ ts) \<Longrightarrow> i \<in> set (elementIds u) \<union> set (textIds u) \<Longrightarrow> i < n"
    and d: "\<And>u v i. u \<in> set (new @ ts) \<Longrightarrow> v \<in> set (new @ ts) \<Longrightarrow> i \<in> set (elementIds u) \<Longrightarrow>
        i \<notin> set (textIds v)"
    unfolding wellFormedNodes_iff by blast+
  show ?thesis
    unfolding wellFormedNodes_iff
  proof (intro conjI ballI)
    fix t i
    assume "t \<in> set (map (replaceChild old new) ts)" and i: "i \<in> set (elementIds t) \<union> set (textIds t)"
    then obtain t0 where t0: "t0 \<in> set ts" "t = replaceChild old new t0" by auto
    from i e [of i t0] x [of i t0] t0 obtain u where "u \<in> set (new @ ts)"
      "i \<in> set (elementIds u) \<union> set (textIds u)"
      by blast
    then show "i < n" by (rule b)
  next
    fix t u i
    assume "t \<in> set (map (replaceChild old new) ts)" "u \<in> set (map (replaceChild old new) ts)"
      and i: "i \<in> set (elementIds t)"
    then obtain t0 u0 where t0: "t0 \<in> set ts" "t = replaceChild old new t0"
      and u0: "u0 \<in> set ts" "u = replaceChild old new u0" by auto
    from i e [of i t0] t0 obtain a where a: "a \<in> set (new @ ts)" "i \<in> set (elementIds a)" by blast
    show "i \<notin> set (textIds u)"
    proof
      assume "i \<in> set (textIds u)"
      with x [of i u0] u0 obtain c where c: "c \<in> set (new @ ts)" "i \<in> set (textIds c)" by blast
      from d [OF a(1) c(1) a(2)] c(2) show False by simp
    qed
  qed
qed

subsection \<open>What annotation changes\<close>

lemma spliceMatches_frame:
  assumes "spliceMatches ms rem frs s = (rem', frs', s')"
    and "wellFormedNodes (nextId s) (frs @ forest)"
  shows "body s' = body s \<and> detached s' = detached s
    \<and> wellFormedNodes (nextId s') (frs' @ forest) \<and> annotates s s'"
  using assms
proof (induction ms arbitrary: rem frs s)
  case Nil
  then show ?case by (auto simp: annotates_refl)
next
  case (Cons m ms)
  define after where "after = drop (index m + length (mtext m)) rem"
  define fr1 where "fr1 = (if after \<noteq> [] then TextNode (nextId s) after # frs else frs)"
  define s1 where "s1 = (if after \<noteq> [] then s\<lparr>nextId := Suc (nextId s)\<rparr> else s)"
  define span where "span = fst (createTargetSpan s1 (mtext m) (mtype m))"
  define s2 where "s2 = snd (createTargetSpan s1 (mtext m) (mtype m))"
  define key where "key = toLowerCase (mtext m)"
  define s3 where "s3 = s2\<lparr>targetElements := regPush (targetElements s2) key (nodeId span)\<rparr>"
  define s4 where "s4 = (if identifierData s3 key = None
                then s3\<lparr>identifierData := (identifierData s3)(key \<mapsto>
                         \<lparr>identifierStr = mtext m, itype = mtype m, score = None,
                          tier = ''unscored'', resolvedAddress = None, ethosName = None,
                          avatarUrl = None, fetched = False\<rparr>)\<rparr>
                else s3)"
  define s5 where "s5 = queueForScoring s4 (mtext m) (mtype m)"
  have eq: "spliceMatches (m # ms) rem frs s = spliceMatches ms (take (index m) rem) (span # fr1) s5"
    by (simp add: Let_def after_def fr1_def s1_def span_def s2_def key_def s3_def s4_def s5_def)
  have n1: "nextId s \<le> nextId s1" "nextId s1 \<le> Suc (nextId s)"
    by (simp_all add: s1_def)
  have sp: "span = Element (nextId s1) ''span'' False [TextNode (Suc (nextId s1)) (mtext m)]"
    by (simp add: span_def createTargetSpan_def)
  have f5: "nextId s5 = nextId s1 + 2" "body s5 = body s" "detached s5 = detached s"
    "targetElements s5 = regPush (targetElements s) key (nextId s1)"
    by (simp_all add: s5_def s4_def s3_def s2_def s1_def sp queueForScoring_def createTargetSpan_def)
  have d5: "identifierData s5 k = identifierData s k \<or> k = key" for k
    by (simp add: s5_def s4_def s3_def s2_def s1_def queueForScoring_def createTargetSpan_def)
  have w1: "wellFormedNodes (nextId s1) (fr1 @ forest)"
  proof (cases "after \<noteq> []")
    case True
    with wfn_text [OF Cons.prems(2), of "nextId s" after] show ?thesis
      by (simp add: fr1_def s1_def)
  next
    case False
    with Cons.prems(2) show ?thesis by (simp add: fr1_def s1_def)
  qed
  have w5: "wellFormedNodes (nextId s5) ((span # fr1) @ forest)"
    using wfn_span [OF w1, of "nextId s1"] by (simp add: f5 sp)
  have a5: "annotates s s5"
    unfolding annotates_def
  proof (intro conjI allI)
    show "nextId s \<le> nextId s5" using n1 by (simp add: f5)
    show "set (elementIds (body s)) \<subseteq> set (elementIds (body s5))" by (simp add: f5)
  next
    fix k
    show "\<exists>news. regGet (targetElements s5) k = regGet (targetElements s) k @ news
        \<and> (\<forall>n \<in> set news. nextId s \<le> n)"
    proof (cases "k = key")
      case True
      have "regGet (targetElements s5) k = regGet (targetElements s) k @ [nextId s1]"
        by (simp add: f5 regGet_regPush True)
      with n1 show ?thesis by (intro exI [of _ "[nextId s1]"]) simp
    next
      case False
      then have "regGet (targetElements s5) k = regGet (targetElements s) k @ []"
        by (simp add: f5 regGet_regPush)
      then show ?thesis by (intro exI [of _ "[]"]) simp
    qed
    show "identifierData s5 k = identifierData s k \<or> regGet (targetElements s5) k \<noteq> []"
    proof (cases "k = key")
      case True
      then show ?thesis by (simp add: f5 regGet_regPush)
    next
      case False
      with d5 [of k] show ?thesis by simp
    qed
  qed
  from Cons.prems(1) have r: "spliceMatches ms (take (index m) rem) (span # fr1) s5 = (rem', frs', s')"
    by (simp only: eq)
  from Cons.IH [OF r w5] have ih: "body s' = body s5" "detached s' = detached s5"
    "wellFormedNodes (nextId s') (frs' @ forest)" "annotates s5 s'"
    by simp_all
  from annotates_trans [OF a5 ih(4)] ih(1,2,3) show ?case
    by (simp add: f5)
qed

lemma annotates_processed:
  "annotates (s\<lparr>processedNodes := p\<rparr>) s' = annotates s s'"
  by (simp add: annotates_def)

lemma processTextNode_cases:
  "processTextNode s node = s
   \<or> (\<exists>p i tx ms rem frs s2.
        lookupNode s node = Some (p, TextNode i tx) \<and> p \<noteq> None
        \<and> spliceMatches ms tx [] (s\<lparr>processedNodes := insert node (processedNodes s)\<rparr>) = (rem, frs, s2)
        \<and> processTextNode s node =
            replaceInDocument (if rem \<noteq> [] then s2\<lparr>nextId := Suc (nextId s2)\<rparr> else s2) node
              (if rem \<noteq> [] then TextNode (nextId s2) rem # frs else frs))"
proof (cases "processTextNode s node = s")
  case True
  then show ?thesis by simp
next
  case False
  then obtain p i tx where l: "lookupNode s node = Some (p, TextNode i tx)"
    by (auto simp: processTextNode_def split: option.splits dnode.splits if_splits)
  let ?ms = "sort_key (\<lambda>m. - int (index m)) (collectMatches tx)"
  let ?s1 = "s\<lparr>processedNodes := insert node (processedNodes s)\<rparr>"
  obtain rem frs s2 where r: "spliceMatches ?ms tx [] ?s1 = (rem, frs, s2)"
    by (cases "spliceMatches ?ms tx [] ?s1") auto
  from False l r have "processTextNode s node =
            replaceInDocument (if rem \<noteq> [] then s2\<lparr>nextId := Suc (nextId s2)\<rparr> else s2) node
              (if rem \<noteq> [] then TextNode (nextId s2) rem # frs else frs)"
    by (auto simp: processTextNode_def Let_def split: option.splits if_splits)
  moreover from False l have "p \<noteq> None"
    by (auto simp: processTextNode_def split: option.splits if_splits)
  ultimately show ?thesis using l r by blast
qed

lemma processTextNode_frame:
  assumes "wellFormed s"
  shows "wellFormed (processTextNode s node) \<and> annotates s (processTextNode s node)"
proof -
  from processTextNode_cases [of s node]
  consider "processTextNode s node = s"
    | p i tx ms rem frs s2 where "lookupNode s node = Some (p, TextNode i tx)"
        "p \<noteq> None"
        "spliceMatches ms tx [] (s\<lparr>processedNodes := insert node (processedNodes s)\<rparr>) = (rem, frs, s2)"
        "processTextNode s node =
            replaceInDocument (if rem \<noteq> [] then s2\<lparr>nextId := Suc (nextId s2)\<rparr> else s2) node
              (if rem \<noteq> [] then TextNode (nextId s2) rem # frs else frs)"
    by blast
  then show ?thesis
  proof cases
    case 1
    with assms show ?thesis by (simp add: annotates_refl)
  next
    case 2
    let ?forest = "body s # detached s"
    let ?s1 = "s\<lparr>processedNodes := insert node (processedNodes s)\<rparr>"
    let ?s3 = "if rem \<noteq> [] then s2\<lparr>nextId := Suc (nextId s2)\<rparr> else s2"
    let ?frs = "if rem \<noteq> [] then TextNode (nextId s2) rem # frs else frs"
    from assms have w0: "wellFormedNodes (nextId ?s1) ([] @ ?forest)"
      by (simp add: wellFormed_def)
    from spliceMatches_frame [OF 2(3) w0]
    have b2: "body s2 = body s" "detached s2 = detached s"
      and w2: "wellFormedNodes (nextId s2) (frs @ ?forest)"
      and a2: "annotates s s2"
      by (simp_all add: annotates_processed)
    have w3: "wellFormedNodes (nextId ?s3) (?frs @ ?forest)"
      using wfn_text [OF w2, of "nextId s2" rem] w2 by simp
    have wf: "wellFormed (processTextNode s node)"
      using wfn_replace [OF w3, of node]
      by (simp add: 2(4) wellFormed_def replaceInDocument_def b2 split: if_splits)
    from lookupNode_text [OF 2(1)] obtain t where t: "t \<in> set ?forest" "node \<in> set (textIds t)"
      by blast
    from assms t have "node \<notin> set (elementIds (body s))"
      unfolding wellFormed_def wellFormedNodes_iff by auto
    from replaceChild_keeps [OF this, of ?frs]
    have k: "set (elementIds (body s)) \<subseteq> set (elementIds (body (processTextNode s node)))"
      by (simp add: 2(4) replaceInDocument_def b2 split: if_splits)
    have same: "nextId s2 \<le> nextId (processTextNode s node)"
      "targetElements (processTextNode s node) = targetElements s2"
      "identifierData (processTextNode s node) = identifierData s2"
      by (simp_all add: 2(4) replaceInDocument_def)
    from a2 k same have "annotates s (processTextNode s node)"
      unfolding annotates_def by (simp only:) auto
    with wf show ?thesis by simp
  qed
qed

lemma fold_frame:
  assumes step: "\<And>x st. wellFormed st \<Longrightarrow> wellFormed (f x st) \<and> annotates st (f x st)"
    and "wellFormed s"
  shows "wellFormed (fold f xs s) \<and> annotates s (fold f xs s)"
  using assms(2)
proof (induction xs arbitrary: s)
  case Nil
  then show ?case by (simp add: annotates_refl)
next
  case (Cons x xs)
  from step [OF Cons.prems, of x] have w: "wellFormed (f x s)" and a: "annotates s (f x s)"
    by simp_all
  from Cons.IH [OF w] annotates_trans [OF a] show ?case by simp
qed

lemma scanDOM_frame:
  "wellFormed s \<Longrightarrow> wellFormed (scanDOM s root) \<and> annotates s (scanDOM s root)"
  unfolding scanDOM_def by (rule fold_frame) (rule processTextNode_frame)

lemma processNode_frame:
  "wellFormed s \<Longrightarrow> wellFormed (processNode s node) \<and> annotates s (processNode s node)"
  using processTextNode_frame [of s node] scanDOM_frame [of s node]
  by (simp add: processNode_def annotates_refl split: option.splits dnode.splits)

lemma processPendingNodes_frame:
  assumes "wellFormed (housekeeping s)"
  shows "wellFormed (processPendingNodes s) \<and> annotates (housekeeping s) (processPendingNodes s)"
  unfolding processPendingNodes_def using processNode_frame assms
  by (rule fold_frame)

lemma fold_same: "(\<And>x st. g (f x st) = g st) \<Longrightarrow> g (fold f xs st) = g st"
  by (induction xs arbitrary: st) simp_all

lemma housekeeping_frame:
  "detached (housekeeping s) = detached s" "nextId (housekeeping s) = nextId s"
proof -
  have c: "detached (cleanupDisconnected st) = detached st"
    "nextId (cleanupDisconnected st) = nextId st" for st
    unfolding cleanupDisconnected_def
    by (rule fold_same [where g = detached], simp add: cleanupEntry_def forgetIdentifier_def Let_def)
       (rule fold_same [where g = nextId], simp add: cleanupEntry_def forgetIdentifier_def Let_def)
  have l: "detached (limitRegistry st) = detached st" "nextId (limitRegistry st) = nextId st" for st
  proof -
    have "detached (fold (\<lambda>key st. forgetIdentifier st key) ks st) = detached st" for ks
      by (rule fold_same [where g = detached]) (simp add: forgetIdentifier_def)
    then show "detached (limitRegistry st) = detached st"
      by (simp add: limitRegistry_def Let_def)
    have "nextId (fold (\<lambda>key st. forgetIdentifier st key) ks st) = nextId st" for ks
      by (rule fold_same [where g = nextId]) (simp add: forgetIdentifier_def)
    then show "nextId (limitRegistry st) = nextId st"
      by (simp add: limitRegistry_def Let_def)
  qed
  show "detached (housekeeping s) = detached s" "nextId (housekeeping s) = nextId s"
    by (simp_all add: housekeeping_def l c)
qed

lemma regGet_mem:
  assumes "el \<in> set (regGet r k)"
  shows "\<exists>e \<in> set r. fst e = k \<and> el \<in> set (snd e)"
proof (cases "map_of r k")
  case None
  with assms show ?thesis by (simp add: regGet_def)
next
  case (Some v)
  then have "(k, v) \<in> set r" by (rule map_of_SomeD)
  with assms Some show ?thesis by (force simp: regGet_def)
qed

lemma regGet_absent: "k \<notin> fst ` set r \<Longrightarrow> regGet r k = []"
  by (simp add: regGet_def map_of_eq_None_iff [THEN iffD2])

subsection \<open>Where annotation puts its markers\<close>

lemma find_app:
  "find P (xs @ ys) = (case find P xs of None \<Rightarrow> find P ys | Some x \<Rightarrow> Some x)"
  by (induction xs) auto

lemma lookupNode_body:
  assumes "bodyContains st n"
  shows "\<exists>pn \<in> set (nodesOf None (body st)). lookupNode st n = Some pn \<and> nodeId (snd pn) = n"
proof -
  let ?P = "\<lambda>pn. nodeId (snd pn) = n"
  from assms obtain x where "x \<in> set (nodesOf None (body st))" "nodeId (snd x) = n"
    unfolding bodyContains_def list_ex_iff by blast
  then have "find ?P (nodesOf None (body st)) \<noteq> None"
    unfolding find_None_iff by blast
  then obtain pn where f: "find ?P (nodesOf None (body st)) = Some pn" by blast
  then have "pn \<in> set (nodesOf None (body st))" "nodeId (snd pn) = n"
    unfolding find_Some_iff by (metis nth_mem)+
  moreover from f have "lookupNode st n = Some pn"
    by (simp add: lookupNode_def allNodes_def find_app)
  ultimately show ?thesis by blast
qed

lemma nodesOf_head: "\<exists>rest. nodesOf p t = (p, t) # rest"
  by (cases t) simp_all

lemma lookupNode_root:
  assumes "lookupNode st n = Some (p, nd)" and "p \<noteq> None"
  shows "nodeId (body st) \<noteq> n"
proof
  assume e: "nodeId (body st) = n"
  obtain rest where "nodesOf None (body st) = (None, body st) # rest"
    using nodesOf_head by blast
  with e have "lookupNode st n = Some (None, body st)"
    by (simp add: lookupNode_def allNodes_def)
  with assms show False by simp
qed

lemma nodesOf_element:
  "(q, Element i tag ce kids) \<in> set (nodesOf p t) \<Longrightarrow> i \<in> set (elementIds t)"
  by (induction t arbitrary: p) auto

lemma lookupNode_element:
  assumes "lookupNode s node = Some (parent, Element i tag ce kids)"
  shows "i = node" and "\<exists>t \<in> set (body s # detached s). node \<in> set (elementIds t)"
proof -
  from assms obtain j where j: "j < length (allNodes s)" "nodeId (snd (allNodes s ! j)) = node"
      "allNodes s ! j = (parent, Element i tag ce kids)"
    unfolding lookupNode_def find_Some_iff by metis
  from j(2,3) show i: "i = node" by simp
  from j(1,3) have m: "(parent, Element i tag ce kids) \<in> set (allNodes s)"
    by (metis nth_mem)
  then have "(parent, Element i tag ce kids) \<in> set (nodesOf None (body s))
      \<or> (\<exists>t \<in> set (detached s). (parent, Element i tag ce kids) \<in> set (nodesOf None t))"
    by (auto simp: allNodes_def)
  then show "\<exists>t \<in> set (body s # detached s). node \<in> set (elementIds t)"
    unfolding i by (auto dest: nodesOf_element)
qed

lemma replaceChild_places:
  "(q, n) \<in> set (nodesOf p t) \<Longrightarrow> nodeId n = old \<Longrightarrow> nodeId t \<noteq> old \<Longrightarrow>
     f \<in> set new \<Longrightarrow> set (elementIds f) \<subseteq> set (elementIds (replaceChild old new t))"
proof (induction t arbitrary: p)
  case (TextNode i x)
  then show ?case by auto
next
  case (Element i tag ce kids)
  from Element.prems(1,2,3) obtain k where k: "k \<in> set kids"
    "(q, n) \<in> set (nodesOf (Some (i, tag, ce)) k)"
    by auto
  show ?case
  proof (cases "nodeId k = old")
    case True
    with k(1) Element.prems(4) show ?thesis by auto
  next
    case False
    from Element.IH [OF k(1) k(2) Element.prems(2) False Element.prems(4)] k(1) False
    show ?thesis by auto
  qed
qed

lemma replaceChild_keeps_text:
  "old \<notin> set (elementIds t) \<Longrightarrow>
     set (textIds t) - {old} \<subseteq> set (textIds (replaceChild old new t))"
proof (induction t)
  case (TextNode i x)
  show ?case by simp
next
  case (Element i tag ce kids)
  show ?case
  proof
    fix x
    assume "x \<in> set (textIds (Element i tag ce kids)) - {old}"
    then obtain k where k: "k \<in> set kids" "x \<in> set (textIds k)" and x: "x \<noteq> old"
      by auto
    from k(1) Element.prems have o: "old \<notin> set (elementIds k)" by auto
    have ne: "nodeId k \<noteq> old"
    proof (cases k)
      case (TextNode j y)
      with k(2) x show ?thesis by simp
    next
      case (Element j tag' ce' kids')
      with o show ?thesis by auto
    qed
    from Element.IH [OF k(1) o] k(2) x have "x \<in> set (textIds (replaceChild old new k))" by blast
    with k(1) ne show "x \<in> set (textIds (replaceChild old new (Element i tag ce kids)))" by auto
  qed
qed

lemma nodesOf_subtree:
  "(q, Element i tag ce kids) \<in> set (nodesOf p t) \<Longrightarrow>
     set (concat (map (nodesOf (Some (i, tag, ce))) kids)) \<subseteq> set (nodesOf p t)"
proof (induction t arbitrary: p)
  case (TextNode j x)
  then show ?case by simp
next
  case (Element j tag' ce' kids')
  show ?case
  proof (cases "(q, Element i tag ce kids) = (p, Element j tag' ce' kids')")
    case True
    then show ?thesis by auto
  next
    case False
    with Element.prems obtain k where k: "k \<in> set kids'"
      "(q, Element i tag ce kids) \<in> set (nodesOf (Some (j, tag', ce')) k)"
      by auto
    from Element.IH [OF k] k(1) show ?thesis by auto
  qed
qed

lemma spliceMatches_placed:
  assumes "spliceMatches ms rem frs s = (rem', frs', s')"
  shows "processedNodes s' = processedNodes s
    \<and> (\<Union>f \<in> set frs. set (elementIds f)) \<subseteq> (\<Union>f \<in> set frs'. set (elementIds f))
    \<and> (\<forall>i \<in> (\<Union>f \<in> set frs'. set (elementIds f)).
          i \<in> (\<Union>f \<in> set frs. set (elementIds f)) \<or> nextId s \<le> i)
    \<and> (\<forall>k. set (regGet (targetElements s') k) \<subseteq>
            set (regGet (targetElements s) k) \<union> (\<Union>f \<in> set frs'. set (elementIds f)))"
  using assms
proof (induction ms arbitrary: rem frs s)
  case Nil
  then show ?case by auto
next
  case (Cons m ms)
  define after where "after = drop (index m + length (mtext m)) rem"
  define fr1 where "fr1 = (if after \<noteq> [] then TextNode (nextId s) after # frs else frs)"
  define s1 where "s1 = (if after \<noteq> [] then s\<lparr>nextId := Suc (nextId s)\<rparr> else s)"
  define span where "span = fst (createTargetSpan s1 (mtext m) (mtype m))"
  define s2 where "s2 = snd (createTargetSpan s1 (mtext m) (mtype m))"
  define key where "key = toLowerCase (mtext m)"
  define s3 where "s3 = s2\<lparr>targetElements := regPush (targetElements s2) key (nodeId span)\<rparr>"
  define s4 where "s4 = (if identifierData s3 key = None
                then s3\<lparr>identifierData := (identifierData s3)(key \<mapsto>
                         \<lparr>identifierStr = mtext m, itype = mtype m, score = None,
                          tier = ''unscored'', resolvedAddress = None, ethosName = None,
                          avatarUrl = None, fetched = False\<rparr>)\<rparr>
                else s3)"
  define s5 where "s5 = queueForScoring s4 (mtext m) (mtype m)"
  have eq: "spliceMatches (m # ms) rem frs s = spliceMatches ms (take (index m) rem) (span # fr1) s5"
    by (simp add: Let_def after_def fr1_def s1_def span_def s2_def key_def s3_def s4_def s5_def)
  have n1: "nextId s \<le> nextId s1"
    by (simp add: s1_def)
  have sp: "span = Element (nextId s1) ''span'' False [TextNode (Suc (nextId s1)) (mtext m)]"
    by (simp add: span_def createTargetSpan_def)
  have f5: "nextId s1 \<le> nextId s5" "processedNodes s5 = processedNodes s"
    "targetElements s5 = regPush (targetElements s) key (nextId s1)"
    by (simp_all add: s5_def s4_def s3_def s2_def s1_def sp queueForScoring_def createTargetSpan_def)
  have e1: "(\<Union>f \<in> set (span # fr1). set (elementIds f)) =
      insert (nextId s1) (\<Union>f \<in> set frs. set (elementIds f))"
    by (simp add: sp fr1_def)
  from Cons.prems have r: "spliceMatches ms (take (index m) rem) (span # fr1) s5 = (rem', frs', s')"
    by (simp only: eq)
  note ih = Cons.IH [OF r, unfolded e1]
  let ?F = "\<Union>f \<in> set frs. set (elementIds f)"
  let ?F' = "\<Union>f \<in> set frs'. set (elementIds f)"
  from ih have p: "processedNodes s' = processedNodes s" by (simp add: f5)
  from ih have sub: "insert (nextId s1) ?F \<subseteq> ?F'" by blast
  from ih have fresh: "\<And>i. i \<in> ?F' \<Longrightarrow> i \<in> insert (nextId s1) ?F \<or> nextId s5 \<le> i" by blast
  from ih have reg: "\<And>k. set (regGet (targetElements s') k) \<subseteq> set (regGet (targetElements s5) k) \<union> ?F'"
    by blast
  have fresh': "i \<in> ?F \<or> nextId s \<le> i" if "i \<in> ?F'" for i
    using fresh [OF that] n1 f5(1) by auto
  have reg': "set (regGet (targetElements s') k) \<subseteq> set (regGet (targetElements s) k) \<union> ?F'" for k
  proof -
    have "set (regGet (targetElements s5) k) \<subseteq> set (regGet (targetElements s) k) \<union> {nextId s1}"
      by (auto simp: f5 regGet_regPush)
    with reg [of k] sub show ?thesis by blast
  qed
  from p sub fresh' reg' show ?case by blast
qed

lemma processTextNode_places:
  assumes w: "wellFormed st"
  shows "processedNodes st \<subseteq> processedNodes (processTextNode st n)"
    and "\<And>t' i. t' \<in> set (body (processTextNode st n) # detached (processTextNode st n)) \<Longrightarrow>
           i \<in> set (elementIds t') \<Longrightarrow>
           (\<exists>t \<in> set (body st # detached st). i \<in> set (elementIds t)) \<or> nextId st \<le> i"
    and "set (textIds (body st)) - {n} \<subseteq> set (textIds (body (processTextNode st n)))"
    and "n \<in> set (textIds (body st)) \<Longrightarrow>
           n \<in> set (textIds (body (processTextNode st n))) \<or> n \<in> processedNodes (processTextNode st n)"
    and "markersAttached st \<Longrightarrow> n \<in> set (textIds (body st)) \<Longrightarrow>
           markersAttached (processTextNode st n)"
proof -
  let ?st' = "processTextNode st n"
  from processTextNode_cases [of st n]
  consider "?st' = st"
    | p i tx ms rem frs s2 where "lookupNode st n = Some (p, TextNode i tx)"
        "p \<noteq> None"
        "spliceMatches ms tx [] (st\<lparr>processedNodes := insert n (processedNodes st)\<rparr>) = (rem, frs, s2)"
        "?st' =
            replaceInDocument (if rem \<noteq> [] then s2\<lparr>nextId := Suc (nextId s2)\<rparr> else s2) n
              (if rem \<noteq> [] then TextNode (nextId s2) rem # frs else frs)"
    by blast
  then have "processedNodes st \<subseteq> processedNodes ?st'
    \<and> (\<forall>t' i. t' \<in> set (body ?st' # detached ?st') \<longrightarrow> i \<in> set (elementIds t') \<longrightarrow>
           (\<exists>t \<in> set (body st # detached st). i \<in> set (elementIds t)) \<or> nextId st \<le> i)
    \<and> set (textIds (body st)) - {n} \<subseteq> set (textIds (body ?st'))
    \<and> (n \<in> set (textIds (body st)) \<longrightarrow>
           n \<in> set (textIds (body ?st')) \<or> n \<in> processedNodes ?st')
    \<and> (markersAttached st \<longrightarrow> n \<in> set (textIds (body st)) \<longrightarrow> markersAttached ?st')"
  proof cases
    case 1
    then show ?thesis by auto
  next
    case 2
    let ?forest = "body st # detached st"
    let ?s1 = "st\<lparr>processedNodes := insert n (processedNodes st)\<rparr>"
    let ?frs = "if rem \<noteq> [] then TextNode (nextId s2) rem # frs else frs"
    let ?F = "\<Union>f \<in> set frs. set (elementIds f)"
    from w have w0: "wellFormedNodes (nextId ?s1) ([] @ ?forest)"
      by (simp add: wellFormed_def)
    from spliceMatches_frame [OF 2(3) w0]
    have b2: "body s2 = body st" "detached s2 = detached st"
      by simp_all
    from spliceMatches_placed [OF 2(3)]
    have p2: "processedNodes s2 = insert n (processedNodes st)"
      and fresh: "\<And>i. i \<in> ?F \<Longrightarrow> nextId st \<le> i"
      and reg: "\<And>k. set (regGet (targetElements s2) k) \<subseteq> set (regGet (targetElements st) k) \<union> ?F"
      by auto
    have F: "(\<Union>f \<in> set ?frs. set (elementIds f)) = ?F" by simp
    have st': "body ?st' = replaceChild n ?frs (body st)"
      "detached ?st' = map (replaceChild n ?frs) (detached st)"
      "processedNodes ?st' = insert n (processedNodes st)"
      "targetElements ?st' = targetElements s2"
      by (simp_all add: 2(4) replaceInDocument_def b2 p2)
    from lookupNode_text [OF 2(1)] obtain t where t: "t \<in> set ?forest" "n \<in> set (textIds t)"
      by blast
    from w t have ne: "n \<notin> set (elementIds (body st))"
      unfolding wellFormed_def wellFormedNodes_iff by auto
    have c1: "processedNodes st \<subseteq> processedNodes ?st'" by (auto simp: st')
    have c2: "(\<exists>t \<in> set ?forest. i \<in> set (elementIds t)) \<or> nextId st \<le> i"
      if t': "t' \<in> set (body ?st' # detached ?st')" and i: "i \<in> set (elementIds t')" for t' i
    proof -
      from t' obtain t0 where t0: "t0 \<in> set ?forest" "t' = replaceChild n ?frs t0"
        by (auto simp: st')
      from i replaceChild_elements [of n ?frs t0] have "i \<in> set (elementIds t0) \<or> i \<in> ?F"
        unfolding t0(2) F [symmetric] by blast
      with t0(1) fresh show ?thesis by blast
    qed
    have c3: "set (textIds (body st)) - {n} \<subseteq> set (textIds (body ?st'))"
      unfolding st' by (rule replaceChild_keeps_text [OF ne])
    have c4: "n \<in> processedNodes ?st'" by (simp add: st')
    have c5: "markersAttached ?st'" if a: "markersAttached st" and nb: "n \<in> set (textIds (body st))"
    proof -
      from nb have "bodyContains st n" by (simp add: bodyContains_ids)
      from lookupNode_body [OF this] 2(1)
      have m: "(p, TextNode i tx) \<in> set (nodesOf None (body st))" and i: "nodeId (TextNode i tx) = n"
        by auto
      from lookupNode_root [OF 2(1,2)] have r: "nodeId (body st) \<noteq> n" .
      have placed: "?F \<subseteq> set (elementIds (body ?st'))"
      proof
        fix x
        assume "x \<in> ?F"
        then obtain f where f: "f \<in> set ?frs" "x \<in> set (elementIds f)"
          unfolding F [symmetric] by blast
        from replaceChild_places [OF m i r f(1)] f(2) show "x \<in> set (elementIds (body ?st'))"
          unfolding st' by blast
      qed
      from replaceChild_keeps [OF ne, of ?frs]
      have keep: "set (elementIds (body st)) \<subseteq> set (elementIds (body ?st'))"
        by (simp only: st')
      show ?thesis
        unfolding markersAttached_def
      proof (intro allI subsetI)
        fix k x
        assume "x \<in> set (regGet (targetElements ?st') k)"
        with reg [of k] have "x \<in> set (regGet (targetElements st) k) \<or> x \<in> ?F"
          by (auto simp: st')
        with a placed keep show "x \<in> set (elementIds (body ?st'))"
          unfolding markersAttached_def by blast
      qed
    qed
    from c1 c2 c3 c4 c5 show ?thesis by blast
  qed
  then show "processedNodes st \<subseteq> processedNodes ?st'"
    and "\<And>t' i. t' \<in> set (body ?st' # detached ?st') \<Longrightarrow> i \<in> set (elementIds t') \<Longrightarrow>
           (\<exists>t \<in> set (body st # detached st). i \<in> set (elementIds t)) \<or> nextId st \<le> i"
    and "set (textIds (body st)) - {n} \<subseteq> set (textIds (body ?st'))"
    and "n \<in> set (textIds (body st)) \<Longrightarrow>
           n \<in> set (textIds (body ?st')) \<or> n \<in> processedNodes ?st'"
    and "markersAttached st \<Longrightarrow> n \<in> set (textIds (body st)) \<Longrightarrow> markersAttached ?st'"
    by blast+
qed

lemma forest_elements:
  "(i \<in> set (concat (map elementIds (body s # detached s)))) =
     (\<exists>t \<in> set (body s # detached s). i \<in> set (elementIds t))"
  by auto

lemma wellFormed_disjoint:
  "wellFormed st \<Longrightarrow> t \<in> set (body st # detached st) \<Longrightarrow> u \<in> set (body st # detached st) \<Longrightarrow>
     i \<in> set (elementIds t) \<Longrightarrow> i \<in> set (textIds u) \<Longrightarrow> False"
  unfolding wellFormed_def wellFormedNodes_iff by blast

lemma wellFormed_bound:
  "wellFormed st \<Longrightarrow> i \<in> set (textIds (body st)) \<Longrightarrow> i < nextId st"
  unfolding wellFormed_def using wfn_bound [where n = "nextId st" and ts = "body st # detached st" and u = "body st" and j = i]
  by simp

lemma processTextNode_settled:
  assumes w: "wellFormed st" and m: "settled st m"
  shows "settled (processTextNode st n) m"
proof -
  let ?st' = "processTextNode st n"
  note pl = processTextNode_places [OF w, where n = n]
  from processTextNode_frame [OF w, of n]
  have nx: "nextId st \<le> nextId ?st'"
    and eb: "set (elementIds (body st)) \<subseteq> set (elementIds (body ?st'))"
    by (simp_all add: annotates_def)
  have out: "m \<notin> set (concat (map elementIds (body ?st' # detached ?st')))"
    if lt: "m < nextId st" and no: "\<not> (\<exists>t \<in> set (body st # detached st). m \<in> set (elementIds t))"
  proof
    assume "m \<in> set (concat (map elementIds (body ?st' # detached ?st')))"
    then obtain t' where "t' \<in> set (body ?st' # detached ?st')" "m \<in> set (elementIds t')"
      unfolding forest_elements by blast
    from pl(2) [OF this] lt no show False by auto
  qed
  from m consider "m \<in> set (elementIds (body st))" | "m \<in> set (textIds (body st))"
    | "m \<in> processedNodes st" "m < nextId st"
      "m \<notin> set (concat (map elementIds (body st # detached st)))"
    unfolding settled_def by blast
  then show ?thesis
  proof cases
    case 1
    with eb show ?thesis unfolding settled_def by blast
  next
    case 2
    show ?thesis
    proof (cases "m \<in> set (textIds (body ?st'))")
      case True
      then show ?thesis unfolding settled_def by blast
    next
      case False
      with 2 pl(3) have mn: "m = n" by blast
      with 2 False pl(4) have p: "m \<in> processedNodes ?st'" by blast
      from wellFormed_bound [OF w 2] have lt: "m < nextId st" .
      have no: "\<not> (\<exists>t \<in> set (body st # detached st). m \<in> set (elementIds t))"
        using wellFormed_disjoint [OF w _ _ _ 2] by auto
      from out [OF lt no] p lt nx show ?thesis unfolding settled_def by auto
    qed
  next
    case 3
    from 3(3) have no: "\<not> (\<exists>t \<in> set (body st # detached st). m \<in> set (elementIds t))"
      unfolding forest_elements by blast
    from out [OF 3(2) no] 3(1,2) pl(1) nx show ?thesis unfolding settled_def by auto
  qed
qed

lemma processTextNode_attached:
  assumes w: "wellFormed st" and a: "markersAttached st" and n: "settled st n"
  shows "markersAttached (processTextNode st n)"
proof (cases "n \<in> set (textIds (body st))")
  case True
  from processTextNode_places(5) [OF w a True] show ?thesis .
next
  case False
  have "processTextNode st n = st"
  proof (cases "n \<in> processedNodes st")
    case True
    then show ?thesis by (simp add: processTextNode_def)
  next
    case np: False
    with n False have e: "n \<in> set (elementIds (body st))" unfolding settled_def by blast
    show ?thesis
    proof (rule ccontr)
      assume "processTextNode st n \<noteq> st"
      with processTextNode_cases [of st n] obtain p i tx where "lookupNode st n = Some (p, TextNode i tx)"
        by blast
      from lookupNode_text(2) [OF this] obtain t where "t \<in> set (body st # detached st)"
        "n \<in> set (textIds t)" by blast
      from wellFormed_disjoint [OF w _ this(1) e this(2)] show False by simp
    qed
  qed
  with a show ?thesis by simp
qed

lemma fold_attached:
  assumes step: "\<And>x st. wellFormed st \<Longrightarrow> markersAttached st \<Longrightarrow> settled st x \<Longrightarrow>
      wellFormed (f x st) \<and> markersAttached (f x st) \<and> (\<forall>m. settled st m \<longrightarrow> settled (f x st) m)"
    and "wellFormed s" and "markersAttached s" and "\<forall>m \<in> set xs. settled s m"
  shows "wellFormed (fold f xs s) \<and> markersAttached (fold f xs s)
    \<and> (\<forall>m. settled s m \<longrightarrow> settled (fold f xs s) m)"
  using assms(2,3,4)
proof (induction xs arbitrary: s)
  case Nil
  then show ?case by simp
next
  case (Cons x xs)
  from Cons.prems(3) have sx: "settled s x" by simp
  from step [OF Cons.prems(1,2) sx] have w: "wellFormed (f x s)" and a: "markersAttached (f x s)"
    and k: "\<And>m. settled s m \<Longrightarrow> settled (f x s) m"
    by blast+
  from Cons.prems(3) k have "\<forall>m \<in> set xs. settled (f x s) m" by simp
  from Cons.IH [OF w a this] k show ?case by simp
qed

lemma processTextNode_step:
  assumes "wellFormed st" and "markersAttached st" and "settled st n"
  shows "wellFormed (processTextNode st n) \<and> markersAttached (processTextNode st n)
    \<and> (\<forall>m. settled st m \<longrightarrow> settled (processTextNode st n) m)"
  using processTextNode_frame [OF assms(1), of n] processTextNode_attached [OF assms]
    processTextNode_settled [OF assms(1), where n = n]
  by blast

lemma acceptNode_text: "acceptNode (q, nd) \<Longrightarrow> \<exists>j y. nd = TextNode j y"
  by (cases q; cases nd) (auto simp: acceptNode_def)

lemma scanDOM_step:
  assumes w: "wellFormed st" and a: "markersAttached st" and n: "settled st root"
    and l: "lookupNode st root = Some (p, Element i tag ce kids)"
  shows "wellFormed (scanDOM st root) \<and> markersAttached (scanDOM st root)
    \<and> (\<forall>m. settled st m \<longrightarrow> settled (scanDOM st root) m)"
proof -
  from lookupNode_element [OF l] obtain t where i: "i = root"
    and t: "t \<in> set (body st # detached st)" "root \<in> set (elementIds t)"
    by blast
  have nt: "root \<notin> set (textIds (body st))"
    using wellFormed_disjoint [OF w t(1) _ t(2)] by auto
  from t have "root \<in> set (concat (map elementIds (body st # detached st)))"
    unfolding forest_elements by blast
  with n nt have "root \<in> set (elementIds (body st))" unfolding settled_def by blast
  then have "bodyContains st root" by (simp add: bodyContains_ids)
  from lookupNode_body [OF this] l
  have m: "(p, Element i tag ce kids) \<in> set (nodesOf None (body st))" by auto
  have walk: "settled st x" if "x \<in> set (walkTextNodes st root)" for x
  proof -
    from that l obtain pn where pn: "pn \<in> set (concat (map (nodesOf (Some (i, tag, ce))) kids))"
      "acceptNode pn" "x = nodeId (snd pn)"
      by (auto simp: walkTextNodes_def)
    from pn(2) obtain q j y where "pn = (q, TextNode j y)"
      using acceptNode_text [of "fst pn" "snd pn"] by (metis prod.collapse)
    with pn(1,3) nodesOf_subtree [OF m] have "(q, TextNode x y) \<in> set (nodesOf None (body st))"
      by auto
    from nodesOf_text [OF this] show ?thesis unfolding settled_def by blast
  qed
  show ?thesis
    unfolding scanDOM_def
    by (rule fold_attached [OF processTextNode_step w a]) (use walk in auto)
qed

lemma processNode_step:
  assumes w: "wellFormed st" and a: "markersAttached st" and n: "settled st n"
  shows "wellFormed (processNode st n) \<and> markersAttached (processNode st n)
    \<and> (\<forall>m. settled st m \<longrightarrow> settled (processNode st n) m)"
proof (cases "lookupNode st n")
  case None
  with assms show ?thesis by (simp add: processNode_def)
next
  case (Some pn)
  obtain p nd where pn: "pn = (p, nd)" by (cases pn)
  show ?thesis
  proof (cases nd)
    case (TextNode i x)
    with Some pn have "processNode st n = processTextNode st n" by (simp add: processNode_def)
    with processTextNode_step [OF assms] show ?thesis by simp
  next
    case (Element i tag ce kids)
    with Some pn have l: "lookupNode st n = Some (p, Element i tag ce kids)" by simp
    then have "processNode st n = scanDOM st n" by (simp add: processNode_def)
    with scanDOM_step [OF assms l] show ?thesis by simp
  qed
qed

lemma flush_attached:
  assumes "wellFormed (housekeeping s)" and "markersAttached (housekeeping s)"
    and "\<forall>n \<in> set (pendingNodes s). settled (housekeeping s) n"
  shows "markersAttached (processPendingNodes s)"
proof -
  from fold_attached [of "\<lambda>node st. processNode st node", OF processNode_step assms]
  show ?thesis by (simp add: processPendingNodes_def)
qed

subsection \<open>The state after the flush\<close>

lemma housekeeping_attached:
  assumes d: "distinct (map fst (targetElements s))" and m: "markersAreElements s"
  shows "markersAttached (housekeeping s)"
  unfolding markersAttached_def
proof (intro allI subsetI)
  fix k el
  note sh = housekeeping_shape [OF d]
  assume "el \<in> set (regGet (targetElements (housekeeping s)) k)"
  from regGet_mem [OF this] obtain e where e: "e \<in> set (targetElements (housekeeping s))"
    "el \<in> set (snd e)"
    by blast
  from e(1) have "e \<in> set (connectedEntries s)"
    using set_drop_subset [of "length (connectedEntries s) - 500" "connectedEntries s"]
    by (auto simp: sh(1))
  from connectedEntries_mem [OF this] e(2) obtain e' where e': "e' \<in> set (targetElements s)"
    "el \<in> set (snd e')" "bodyContains s el"
    by auto
  from m e'(1,2) have "el \<notin> set (textIds (body s))"
    by (auto simp: markersAreElements_def list_all_iff)
  with e'(3) show "el \<in> set (elementIds (body (housekeeping s)))"
    by (simp add: bodyContains_ids sh(3))
qed

lemma flush_registry:
  assumes d: "distinct (map fst (targetElements s))"
    and w: "wellFormed s" and m: "markersAreElements s"
  shows "(\<forall>k. \<forall>el \<in> set (regGet (targetElements (processPendingNodes s)) k).
            el < nextId s \<longrightarrow>
              bodyContains (processPendingNodes s) el
              \<and> el \<in> set (regGet (targetElements (housekeeping s)) k))
    \<and> (\<forall>k. k \<notin> fst ` set (targetElements (housekeeping s)) \<longrightarrow>
            (\<forall>el \<in> set (regGet (targetElements (processPendingNodes s)) k). nextId s \<le> el))
    \<and> (\<forall>k. k \<notin> fst ` set (targetElements (housekeeping s)) \<longrightarrow>
            identifierData (housekeeping s) k = None \<longrightarrow>
            regGet (targetElements (processPendingNodes s)) k = [] \<longrightarrow>
            identifierData (processPendingNodes s) k = None)
    \<and> (list_all (bodyContains s) (pendingNodes s) \<longrightarrow>
          (\<forall>k. \<forall>el \<in> set (regGet (targetElements (processPendingNodes s)) k).
             bodyContains (processPendingNodes s) el))
    \<and> wellFormed (processPendingNodes s)"
proof -
  let ?h = "housekeeping s"
  let ?f = "processPendingNodes s"
  note sh = housekeeping_shape [OF d]
  from w have wh: "wellFormed ?h"
    by (simp add: wellFormed_def housekeeping_frame sh(3))
  from processPendingNodes_frame [OF wh] have wf: "wellFormed ?f" and a: "annotates ?h ?f"
    by simp_all
  note mah = housekeeping_attached [OF d m]
  have grow: "\<exists>news. regGet (targetElements ?f) k = regGet (targetElements ?h) k @ news
      \<and> (\<forall>n \<in> set news. nextId s \<le> n)" for k
    using a unfolding annotates_def housekeeping_frame by blast
  have n1: "bodyContains ?f el \<and> el \<in> set (regGet (targetElements ?h) k)"
    if el: "el \<in> set (regGet (targetElements ?f) k)" and lt: "el < nextId s" for k el
  proof -
    from grow [of k] el lt have eh: "el \<in> set (regGet (targetElements ?h) k)" by fastforce
    with mah have "el \<in> set (elementIds (body ?h))" unfolding markersAttached_def by blast
    with a have "el \<in> set (elementIds (body ?f))"
      unfolding annotates_def by blast
    then have "bodyContains ?f el" by (simp add: bodyContains_ids)
    with eh show ?thesis by simp
  qed
  have n2: "nextId s \<le> el"
    if "k \<notin> fst ` set (targetElements ?h)" and "el \<in> set (regGet (targetElements ?f) k)" for k el
    using grow [of k] that by (auto simp: regGet_absent)
  have n3: "identifierData ?f k = None"
    if "identifierData ?h k = None" and "regGet (targetElements ?f) k = []" for k
    using a that unfolding annotates_def by metis
  have n4: "bodyContains ?f el"
    if la: "list_all (bodyContains s) (pendingNodes s)"
      and el: "el \<in> set (regGet (targetElements ?f) k)" for k el
  proof -
    have "\<forall>n \<in> set (pendingNodes s). settled ?h n"
      using la by (auto simp: list_all_iff settled_def bodyContains_ids sh(3))
    from flush_attached [OF wh mah this] el have "el \<in> set (elementIds (body ?f))"
      unfolding markersAttached_def by blast
    then show ?thesis by (simp add: bodyContains_ids)
  qed
  from n1 n2 n3 n4 wf show ?thesis by blast
qed

text \<open>
  Claim C8, as amended. The tracked identifiers are distinct keys, node identities are
  handed out from \<open>nextId\<close>, and what the registry lists are elements.

  Right after the housekeeping of a flush, before the pending nodes are annotated: the
  registry is the old registry with every marker list cut down to the attached elements,
  the identifiers left with no element removed, and, if more than 500 identifiers remain,
  the earliest-inserted ones removed until exactly 500 are left. So every registered
  element is attached, no marker list is empty and at most 500 identifiers are tracked; an
  identifier whose markers are all detached, and an evicted identifier, is in neither the
  registry nor the record map; a kept identifier keeps its record. A flush with no
  pending node ends in this state.

  After the whole flush, pending nodes annotated: every registered element that existed
  before the flush is attached and was kept by the housekeeping; an identifier that the
  housekeeping removed is tracked again only with markers the flush created, and has no
  record if it has no marker; and if every pending node is attached to the document, every
  registered element is attached, the markers the flush created too. Only a marker that
  the flush creates for a pending node outside the document is registered detached.
\<close>

theorem flush_cleans_registry:
  assumes "distinct (map fst (targetElements s))" and "wellFormed s" and "markersAreElements s"
  shows "targetElements (housekeeping s) =
           drop (length (connectedEntries s) - 500) (connectedEntries s)
    \<and> length (targetElements (housekeeping s)) \<le> 500
    \<and> registryAttached (housekeeping s)
    \<and> (\<forall>e \<in> set (targetElements (housekeeping s)). snd e \<noteq> [])
    \<and> (\<forall>e \<in> set (targetElements s). filter (bodyContains s) (snd e) = [] \<longrightarrow>
          fst e \<notin> fst ` set (targetElements (housekeeping s))
          \<and> identifierData (housekeeping s) (fst e) = None)
    \<and> (\<forall>k \<in> set (take (length (connectedEntries s) - 500) (map fst (connectedEntries s))).
          k \<notin> fst ` set (targetElements (housekeeping s))
          \<and> identifierData (housekeeping s) k = None)
    \<and> (\<forall>k \<in> fst ` set (targetElements (housekeeping s)).
          identifierData (housekeeping s) k = identifierData s k)
    \<and> (pendingNodes s = [] \<longrightarrow> processPendingNodes s = housekeeping s)
    \<and> (\<forall>k. \<forall>el \<in> set (regGet (targetElements (processPendingNodes s)) k).
            el < nextId s \<longrightarrow>
              bodyContains (processPendingNodes s) el
              \<and> el \<in> set (regGet (targetElements (housekeeping s)) k))
    \<and> (\<forall>k. k \<notin> fst ` set (targetElements (housekeeping s)) \<longrightarrow>
            (\<forall>el \<in> set (regGet (targetElements (processPendingNodes s)) k). nextId s \<le> el))
    \<and> (\<forall>k. k \<notin> fst ` set (targetElements (housekeeping s)) \<longrightarrow>
            identifierData (housekeeping s) k = None \<longrightarrow>
            regGet (targetElements (processPendingNodes s)) k = [] \<longrightarrow>
            identifierData (processPendingNodes s) k = None)
    \<and> (list_all (bodyContains s) (pendingNodes s) \<longrightarrow>
          (\<forall>k. \<forall>el \<in> set (regGet (targetElements (processPendingNodes s)) k).
             bodyContains (processPendingNodes s) el))
    \<and> wellFormed (processPendingNodes s)"
  using housekeeping_registry [OF assms(1)] flush_registry [OF assms]
  by (elim conjE, intro conjI) assumption+

lemma staleRegistry_keys: "distinct (map fst (targetElements staleRegistryState))"
  by (simp add: staleRegistryState_def ghostState_def initState_def)

text \<open>
  The theorem at a page that has removed one of two markers and inserted a paragraph
  that holds a name: the flush forgets the identifier of the removed marker and
  registers the marker of the name in the paragraph, attached.
\<close>

theorem flush_cleans_registry_witness:
  "distinct (map fst (targetElements staleRegistryState))
   \<and> wellFormed staleRegistryState
   \<and> markersAreElements staleRegistryState
   \<and> targetElements staleRegistryState =
       [(''ghost.eth'', [2]), (''0xd8da6bf26964af9d7eed9e03e53415d37aa96045'', [4])]
   \<and> filter (bodyContains staleRegistryState) [4] = []
   \<and> pendingNodes staleRegistryState = [6]
   \<and> list_all (bodyContains staleRegistryState) (pendingNodes staleRegistryState)
   \<and> targetElements (processPendingNodes staleRegistryState) =
       [(''ghost.eth'', [2]), (''vitalik.eth'', [8])]
   \<and> identifierData (processPendingNodes staleRegistryState)
        ''0xd8da6bf26964af9d7eed9e03e53415d37aa96045'' = None
   \<and> bodyContains (processPendingNodes staleRegistryState) 2
   \<and> bodyContains (processPendingNodes staleRegistryState) 8"
proof -
  let ?a = "''0xd8da6bf26964af9d7eed9e03e53415d37aa96045''"
  let ?s = "staleRegistryState"
  have t: "targetElements ?s = [(''ghost.eth'', [2]), (?a, [4])]"
    by (simp add: staleRegistryState_def ghostState_def initState_def)
  have w: "wellFormed ?s"
    by code_simp
  have m: "markersAreElements ?s"
    by code_simp
  have f: "filter (bodyContains ?s) [4] = []"
    by code_simp
  have p: "pendingNodes ?s = [6]"
    by (simp add: staleRegistryState_def ghostState_def initState_def)
  have la: "list_all (bodyContains ?s) (pendingNodes ?s)"
    by code_simp
  have tf: "targetElements (processPendingNodes ?s) =
       [(''ghost.eth'', [2]), (''vitalik.eth'', [8])]"
    by code_simp
  note th = flush_cleans_registry [OF staleRegistry_keys w m]
  from th have c5: "\<forall>e \<in> set (targetElements ?s). filter (bodyContains ?s) (snd e) = [] \<longrightarrow>
          fst e \<notin> fst ` set (targetElements (housekeeping ?s))
          \<and> identifierData (housekeeping ?s) (fst e) = None"
    by (elim conjE) assumption
  from th have c11: "\<forall>k. k \<notin> fst ` set (targetElements (housekeeping ?s)) \<longrightarrow>
            identifierData (housekeeping ?s) k = None \<longrightarrow>
            regGet (targetElements (processPendingNodes ?s)) k = [] \<longrightarrow>
            identifierData (processPendingNodes ?s) k = None"
    by (elim conjE) assumption
  from th have c12: "list_all (bodyContains ?s) (pendingNodes ?s) \<longrightarrow>
          (\<forall>k. \<forall>el \<in> set (regGet (targetElements (processPendingNodes ?s)) k).
             bodyContains (processPendingNodes ?s) el)"
    by (elim conjE) assumption
  have "(?a, [4]) \<in> set (targetElements ?s)" by (simp add: t)
  with c5 f have gone: "?a \<notin> fst ` set (targetElements (housekeeping ?s))"
    "identifierData (housekeeping ?s) ?a = None"
    by force+
  have "regGet (targetElements (processPendingNodes ?s)) ?a = []"
    by (simp add: tf regGet_def)
  with c11 gone have d: "identifierData (processPendingNodes ?s) ?a = None"
    by blast
  from c12 la have at: "\<And>k el. el \<in> set (regGet (targetElements (processPendingNodes ?s)) k)
      \<Longrightarrow> bodyContains (processPendingNodes ?s) el"
    by blast
  have b2: "bodyContains (processPendingNodes ?s) 2"
    by (rule at [of _ "''ghost.eth''"]) (simp add: tf regGet_def)
  have b8: "bodyContains (processPendingNodes ?s) 8"
    by (rule at [of _ "''vitalik.eth''"]) (simp add: tf regGet_def)
  from staleRegistry_keys w m t f p la tf d b2 b8 show ?thesis
    by (intro conjI)
qed

section \<open>Guards, classes and the overlap test\<close>

text \<open>
  The guards of \<open>processTextNode\<close>: a text node that is in \<open>processedNodes\<close>, or whose
  parent is a skipped element, carries the class \<open>aura-target\<close> or is content-editable, is
  left as it is.
\<close>

lemma processTextNode_processed: "node \<in> processedNodes s \<Longrightarrow> processTextNode s node = s"
  by (simp add: processTextNode_def)

lemma processTextNode_guarded:
  assumes "lookupNode s node = Some (Some (pid, tag, editable), TextNode i txt)"
    and "tag \<in> set skippedTags \<or> classListContains (className s pid) ''aura-target'' \<or> editable"
  shows "processTextNode s node = s"
  using assms by (auto simp: processTextNode_def)

text \<open>\<open>updateScore\<close> gives every registered element of the identifier the class of the tier.\<close>

lemma setTierClass_in:
  "el \<in> set els \<Longrightarrow> setTierClass cls els t el = ''aura-target '' @ t"
proof (induction els arbitrary: cls)
  case Nil
  then show ?case by simp
next
  case (Cons a els)
  show ?case
  proof (cases "el \<in> set els")
    case True
    from Cons.IH [OF True] show ?thesis by (simp add: setTierClass_def)
  next
    case False
    with Cons.prems have a: "a = el" by simp
    have "fold (\<lambda>el f. f(el := ''aura-target '' @ t)) els f el = f el" for f
      using False by (induction els arbitrary: f) auto
    then show ?thesis by (simp add: setTierClass_def a)
  qed
qed

lemma showTooltip_className [simp]: "className (showTooltip s el d) = className s"
  by (simp add: showTooltip_def)

lemma updateScore_classes:
  "el \<in> set (regGet (targetElements s) (toLowerCase key)) \<Longrightarrow>
     className (updateScore s key sc) el = ''aura-target '' @ tierNameOf sc"
  by (simp add: updateScore_def Let_def setTierClass_in split: option.split prod.split)

text \<open>\<open>queueForScoring\<close> keeps the identifiers of the queue distinct up to case.\<close>

lemma queueForScoring_distinct:
  "distinct (map (\<lambda>q. toLowerCase (fst q)) (scoreQueue s)) \<Longrightarrow>
     distinct (map (\<lambda>q. toLowerCase (fst q)) (scoreQueue (queueForScoring s idn ty)))"
  by (auto simp: queueForScoring_def list_ex_iff)

text \<open>Every ENS match in the list is disjoint from all matches before it.\<close>

lemma not_overlaps_disjoint:
  "\<not> overlaps ci ctext m \<Longrightarrow>
     \<not> spansOverlap m \<lparr>mtext = ctext, index = ci, mtype = ty\<rparr>"
  by (auto simp: overlaps_def spansOverlap_def)

lemma collectEns_disjoint:
  assumes "\<forall>j < length ms. mtype (ms ! j) = Ens \<longrightarrow> (\<forall>i < j. \<not> spansOverlap (ms ! i) (ms ! j))"
  shows "\<forall>j < length (collectEns text cands ms). mtype (collectEns text cands ms ! j) = Ens \<longrightarrow>
           (\<forall>i < j. \<not> spansOverlap (collectEns text cands ms ! i) (collectEns text cands ms ! j))"
  using assms
proof (induction cands arbitrary: ms)
  case Nil
  then show ?case by simp
next
  case (Cons c cands)
  obtain ci len where c: "c = (ci, len)" by (cases c)
  let ?m0 = "take len (drop ci text)"
  let ?new = "\<lparr>mtext = ?m0, index = ci, mtype = Ens\<rparr>"
  show ?case
  proof (cases "endsWith ?m0 ''.base.eth'' \<or> list_ex (overlaps ci ?m0) ms")
    case True
    then have "collectEns text (c # cands) ms = collectEns text cands ms"
      by (auto simp: c Let_def)
    with Cons.IH [OF Cons.prems] show ?thesis by simp
  next
    case False
    then have e: "collectEns text (c # cands) ms = collectEns text cands (ms @ [?new])"
      by (auto simp: c Let_def)
    from False have "\<forall>m \<in> set ms. \<not> overlaps ci ?m0 m"
      by (simp add: list_ex_iff)
    then have no: "\<forall>m \<in> set ms. \<not> spansOverlap m ?new"
      using not_overlaps_disjoint by blast
    have "\<forall>j < length (ms @ [?new]). mtype ((ms @ [?new]) ! j) = Ens \<longrightarrow>
        (\<forall>i < j. \<not> spansOverlap ((ms @ [?new]) ! i) ((ms @ [?new]) ! j))"
    proof (intro allI impI)
      fix j i
      assume j: "j < length (ms @ [?new])" and t: "mtype ((ms @ [?new]) ! j) = Ens" and i: "i < j"
      show "\<not> spansOverlap ((ms @ [?new]) ! i) ((ms @ [?new]) ! j)"
      proof (cases "j < length ms")
        case True
        with Cons.prems t i show ?thesis by (simp add: nth_append)
      next
        case False
        with j have jl: "j = length ms" by simp
        with i have "ms ! i \<in> set ms" by simp
        with no show ?thesis using i jl by (simp add: nth_append)
      qed
    qed
    from Cons.IH [OF this] show ?thesis by (simp only: e)
  qed
qed

lemma collectMatches_ens_disjoint:
  "\<forall>j < length (collectMatches text). mtype (collectMatches text ! j) = Ens \<longrightarrow>
     (\<forall>i < j. \<not> spansOverlap (collectMatches text ! i) (collectMatches text ! j))"
  unfolding collectMatches_def
proof (rule collectEns_disjoint, intro allI impI)
  fix j i
  assume "j < length (matchesOf ethAddressAt Eth text @ matchesOf baseNameAt Base text)"
    and "mtype ((matchesOf ethAddressAt Eth text @ matchesOf baseNameAt Base text) ! j) = Ens"
  then have False
    by (auto simp: matchesOf_def nth_append case_prod_beta split: if_splits)
  then show "\<not> spansOverlap ((matchesOf ethAddressAt Eth text @ matchesOf baseNameAt Base text) ! i)
      ((matchesOf ethAddressAt Eth text @ matchesOf baseNameAt Base text) ! j)" ..
qed

section \<open>The code at concrete inputs\<close>

lemma updateScore_rerenders:
  assumes "currentHover s = Some (el, toLowerCase key)"
    and "identifierData s (toLowerCase key) = Some d" and "overlayRoot s"
  shows "tooltip (updateScore s key sc) =
           ProfileView (renderProfile el (d\<lparr>score := sc, tier := tierNameOf sc, fetched := True\<rparr>))"
  using assms by (simp add: updateScore_def Let_def showTooltip_def)

text \<open>
  Claim C6 at a failing input. An address marker is hovered while its record is not
  fetched: the tooltip shows the loading view, and the hover starts a dispatch cycle. The
  score endpoint knows no score, so \<open>updateScore(key, null)\<close> renders the tooltip with no
  score and the label UNSCORED. Then the profile arrives with the name \<open>alice\<close> and the
  score 1450: the fallback path writes score 1450, tier \<open>established\<close> and the name into the
  record and sets the class of the marker, but does not render the tooltip again. The
  marker is still hovered and the tooltip still shows no score, UNSCORED and the shortened
  address, which is not what the record gives.
\<close>

theorem fallback_score_leaves_tooltip_stale:
  "tooltip (targetMouseEnter ghostState 4 ''0xd8dA6BF26964aF9D7eEd9e03E53415D37aA96045'') =
     LoadingView ''0xd8dA6BF2...A96045''
   \<and> (case mouseenter profileOnlyEnv ghostState 4 ''0xd8dA6BF26964aF9D7eEd9e03E53415D37aA96045'' of
        Inl e \<Rightarrow> False
      | Inr s' \<Rightarrow>
          currentHover s' = Some (4, ''0xd8da6bf26964af9d7eed9e03e53415d37aa96045'')
          \<and> identifierData s' ''0xd8da6bf26964af9d7eed9e03e53415d37aa96045'' =
              Some \<lparr>identifierStr = ''0xd8dA6BF26964aF9D7eEd9e03E53415D37aA96045'', itype = Eth,
                    score = Some 1450, tier = ''established'', resolvedAddress = None,
                    ethosName = Some ''alice'', avatarUrl = None, fetched = True\<rparr>
          \<and> className s' 4 = ''aura-target established''
          \<and> tooltip s' =
              ProfileView \<lparr>ptElement = 4, ptScore = None, ptTierLabel = ''UNSCORED'',
                           ptName = ''0xd8dA6BF2...7aA96045'', ptSubtitle = None,
                           ptId = ''0xd8dA6BF26964aF9D7eEd9e03E53415D37aA96045''\<rparr>
          \<and> tooltip s' \<noteq>
              ProfileView (renderProfile 4
                (the (identifierData s' ''0xd8da6bf26964af9d7eed9e03e53415d37aa96045''))))"
  by code_simp

text \<open>
  Claim C1 at a failing input. For a text run that is an address followed by
  \<open>.base.eth\<close> the address pattern and the Basename pattern both match at index 0, and
  both matches are pushed, since only ENS candidates are tested for overlap. The two spans
  overlap, and the splice, which assumes disjoint spans, writes the text twice.
\<close>

theorem address_and_basename_spans_overlap:
  "collectMatches ''0xd8dA6BF26964aF9D7eEd9e03E53415D37aA96045.base.eth'' =
     [\<lparr>mtext = ''0xd8dA6BF26964aF9D7eEd9e03E53415D37aA96045'', index = 0, mtype = Eth\<rparr>,
      \<lparr>mtext = ''0xd8dA6BF26964aF9D7eEd9e03E53415D37aA96045.base.eth'', index = 0, mtype = Base\<rparr>]
   \<and> spansOverlap
        \<lparr>mtext = ''0xd8dA6BF26964aF9D7eEd9e03E53415D37aA96045'', index = 0, mtype = Eth\<rparr>
        \<lparr>mtext = ''0xd8dA6BF26964aF9D7eEd9e03E53415D37aA96045.base.eth'', index = 0, mtype = Base\<rparr>
   \<and> body (scanDOM basenamePage 0) =
       Element 0 ''body'' False
         [Element 1 ''p'' False
            [Element 6 ''span'' False
               [TextNode 7 ''0xd8dA6BF26964aF9D7eEd9e03E53415D37aA96045.base.eth''],
             Element 4 ''span'' False
               [TextNode 5 ''0xd8dA6BF26964aF9D7eEd9e03E53415D37aA96045''],
             TextNode 3 ''.base.eth'']]"
  by code_simp

text \<open>
  Claim C7 at a failing input. The paragraph holds a name directly followed by an address.
  The first scan marks the address only, because \<open>\b\<close> fails between the name and the
  address; it leaves the name in a new text node. A second scan of the same root finds
  the name in that text node and adds a second marker.
\<close>

theorem rescan_adds_a_marker:
  "markers namePage = []
   \<and> markers (scanDOM namePage 0) = [3]
   \<and> body (scanDOM namePage 0) =
       Element 0 ''body'' False
         [Element 1 ''p'' False
            [TextNode 5 ''vitalik.eth'',
             Element 3 ''span'' False
               [TextNode 4 ''0xd8dA6BF26964aF9D7eEd9e03E53415D37aA96045'']]]
   \<and> markers (scanDOM (scanDOM namePage 0) 0) = [6, 3]
   \<and> body (scanDOM (scanDOM namePage 0) 0) =
       Element 0 ''body'' False
         [Element 1 ''p'' False
            [Element 6 ''span'' False [TextNode 7 ''vitalik.eth''],
             Element 3 ''span'' False
               [TextNode 4 ''0xd8dA6BF26964aF9D7eEd9e03E53415D37aA96045'']]]"
  by code_simp

text \<open>
  Claim C8 as stated fails. A paragraph that was inserted and removed again before the
  flush is still in the pending list. The flush cleans the registry first and annotates
  the pending nodes afterwards, so it registers a marker inside the removed paragraph:
  after the flush the registry holds an element that is not attached to the document.
\<close>

theorem flush_registers_detached_marker:
  "pendingNodes removedParagraphPage = [1]
   \<and> \<not> bodyContains removedParagraphPage 1
   \<and> targetElements removedParagraphPage = []
   \<and> targetElements (processPendingNodes removedParagraphPage) = [(''vitalik.eth'', [3])]
   \<and> \<not> bodyContains (processPendingNodes removedParagraphPage) 3
   \<and> \<not> registryAttached (processPendingNodes removedParagraphPage)"
  by code_simp

end
